theory Spec2Isabelle
  imports Main "HOL-Library.Word" "HOL-Library.Monad_Syntax"
begin

unbundle bit_operations_syntax

section \<open>Machine types and chunk records\<close>

type_synonym u8 = "8 word"
type_synonym u32 = "32 word"
type_synonym u64 = "64 word"

text \<open>
  Everything that ends a computation abnormally in \<^verbatim>\<open>chunker.pyx\<close>: a Python exception, or a C
  operation that the language leaves undefined.
\<close>

datatype error =
    OSError nat                   \<comment> \<open>\<^verbatim>\<open>OSError(errno, ...)\<close>\<close>
  | ValueError string
  | AssertionError
  | ByteCountMismatch             \<comment> \<open>\<^verbatim>\<open>Exception("chunkifier byte count mismatch")\<close>\<close>
  | IndexError
  | OverflowError                 \<comment> \<open>a Python integer that does not fit the C type it is converted to\<close>
  | UndefinedBehaviour            \<comment> \<open>a C operation outside what the language defines\<close>

definition EIO :: nat where "EIO = 5"
definition ENXIO :: nat where "ENXIO = 6"

datatype allocation = CH_DATA | CH_ALLOC | CH_HOLE

text \<open>
  \<^verbatim>\<open>Chunk(data, size=..., allocation=...)\<close>: the \<^verbatim>\<open>meta\<close> dictionary always has exactly the two keys
  \<^verbatim>\<open>size\<close> (here \<open>csize\<close>) and \<^verbatim>\<open>allocation\<close>; \<^verbatim>\<open>data\<close> is \<^verbatim>\<open>None\<close> or the bytes.
\<close>

record chunk =
  data :: "u8 list option"
  csize :: nat
  allocation :: allocation

definition Chunk :: "u8 list option \<Rightarrow> nat \<Rightarrow> allocation \<Rightarrow> chunk" where
  "Chunk d sz al = \<lparr>data = d, csize = sz, allocation = al\<rparr>"

section \<open>Cyclic polynomial hash (buzhash)\<close>

definition table_base :: "u32 list" where
  "table_base = [
    0xe7f831ec, 0xf4026465, 0xafb50cae, 0x6d553c7a, 0xd639efe3, 0x19a7b895, 0x9aba5b21, 0x5417d6d4,
    0x35fd2b84, 0xd1f6a159, 0x3f8e323f, 0xb419551c, 0xf444cebf, 0x21dc3b80, 0xde8d1e36, 0x84a32436,
    0xbeb35a9d, 0xa36f24aa, 0xa4e60186, 0x98d18ffe, 0x3f042f9e, 0xdb228bcd, 0x096474b7, 0x5c20c2f7,
    0xf9eec872, 0xe8625275, 0xb9d38f80, 0xd48eb716, 0x22a950b4, 0x3cbaaeaa, 0xc37cddd3, 0x8fea6f6a,
    0x1d55d526, 0x7fd6d3b3, 0xdaa072ee, 0x4345ac40, 0xa077c642, 0x8f2bd45b, 0x28509110, 0x55557613,
    0xffc17311, 0xd961ffef, 0xe532c287, 0xaab95937, 0x46d38365, 0xb065c703, 0xf2d91d0f, 0x92cd4bb0,
    0x4007c712, 0xf35509dd, 0x505b2f69, 0x557ead81, 0x310f4563, 0xbddc5be8, 0x9760f38c, 0x701e0205,
    0x00157244, 0x14912826, 0xdc4ca32b, 0x67b196de, 0x5db292e8, 0x8c1b406b, 0x01f34075, 0xfa2520f7,
    0x73bc37ab, 0x1e18bc30, 0xfe2c6cb3, 0x20c522d0, 0x5639e3db, 0x942bda35, 0x899af9d1, 0xced44035,
    0x98cc025b, 0x255f5771, 0x70fefa24, 0xe928fa4d, 0x2c030405, 0xb9325590, 0x20cb63bd, 0xa166305d,
    0x80e52c0a, 0xa8fafe2f, 0x1ad13f7d, 0xcfaf3685, 0x6c83a199, 0x7d26718a, 0xde5dfcd9, 0x79cf7355,
    0x8979d7fb, 0xebf8c55e, 0xebe408e4, 0xcd2affba, 0xe483be6e, 0xe239d6de, 0x5dc1e9e0, 0x0473931f,
    0x851b097c, 0xac5db249, 0x09c0f9f2, 0xd8d2f134, 0xe6f38e41, 0xb1c71bf1, 0x52b6e4db, 0x07224424,
    0x6cf73e85, 0x4f25d89c, 0x782a7d74, 0x10a68dcd, 0x3a868189, 0xd570d2dc, 0x69630745, 0x9542ed86,
    0x331cd6b2, 0xa84b5b28, 0x07879c9d, 0x38372f64, 0x7185db11, 0x25ba7c83, 0x01061523, 0xe6792f9f,
    0xe5df07d1, 0x4321b47f, 0x7d2469d8, 0x1a3a4f90, 0x48be29a3, 0x669071af, 0x8ec8dd31, 0x0810bfbf,
    0x813a06b4, 0x68538345, 0x65865ddc, 0x43a71b8e, 0x78619a56, 0x5a34451d, 0x5bdaa3ed, 0x71edc7e9,
    0x17ac9a20, 0x78d10bfa, 0x6c1e7f35, 0xd51839d9, 0x240cbc51, 0x33513cc1, 0xd2b4f795, 0xccaa8186,
    0x0babe682, 0xa33cf164, 0x18c643ea, 0xc1ca105f, 0x9959147a, 0x6d3d94de, 0x0b654fbe, 0xed902ca0,
    0x7d835cb5, 0x99ba1509, 0x6445c922, 0x495e76c2, 0xf07194bc, 0xa1631d7e, 0x677076a5, 0x89fffe35,
    0x1a49bcf3, 0x8e6c948a, 0x0144c917, 0x8d93aea1, 0x16f87ddf, 0xc8f25d49, 0x1fb11297, 0x27e750cd,
    0x2f422da1, 0xdee89a77, 0x1534c643, 0x457b7b8b, 0xaf172f7a, 0x6b9b09d6, 0x33573f7f, 0xf14e15c4,
    0x526467d5, 0xaf488241, 0x87c3ee0d, 0x33be490c, 0x95aa6e52, 0x43ec242e, 0xd77de99b, 0xd018334f,
    0x5b78d407, 0x498eb66b, 0xb1279fa8, 0xb38b0ea6, 0x90718376, 0xe325dee2, 0x8e2f2cba, 0xcaa5bdec,
    0x9d652c56, 0xad68f5cb, 0xa77591af, 0x88e37ee8, 0xf8faa221, 0xfcbbbe47, 0x4f407786, 0xaf393889,
    0xf444a1d9, 0x15ae1a2f, 0x40aa7097, 0x6f9486ac, 0x29d232a3, 0xe47609e9, 0xe8b631ff, 0xba8565f4,
    0x11288749, 0x46c9a838, 0xeb1b7cd8, 0xf516bbb1, 0xfb74fda0, 0x010996e6, 0x4c994653, 0x1d889512,
    0x53dcd9a3, 0xdd074697, 0x1e78e17c, 0x637c98bf, 0x930bb219, 0xcf7f75b0, 0xcb9355fb, 0x9e623009,
    0xe466d82c, 0x28f968d3, 0xfeb385d9, 0x238e026c, 0xb8ed0560, 0x0c6a027a, 0x3d6fec4b, 0xbb4b2ec2,
    0xe715031c, 0xeded011d, 0xcdc4d3b9, 0xc456fc96, 0xdd0eea20, 0xb3df8ec9, 0x12351993, 0xd9cbb01c,
    0x603147a2, 0xcf37d17d, 0xf7fcd9dc, 0xd8556fa3, 0x104c8131, 0x13152774, 0xb4715811, 0x6a72c2c9,
    0xc5ae37bb, 0xa76ce12a, 0x8150d8f3, 0x2ec29218, 0xa35f0984, 0x48c0647e, 0x0b5ff98c, 0x71893f7b
  ]"

text \<open>
  The C macro
  \<^verbatim>\<open>#define BARREL_SHIFT(v, shift) (((v) << (shift)) | ((v) >> (((32 - (shift)) & 0x1f))))\<close>
  on \<^verbatim>\<open>uint32_t\<close> operands. C leaves a shift by 32 or more positions of a 32-bit operand
  undefined; that outcome is \<open>None\<close>. The right shift count is masked by the macro itself,
  the left shift count is not.
\<close>

definition BARREL_SHIFT :: "u32 \<Rightarrow> u32 \<Rightarrow> u32 option" where
  "BARREL_SHIFT v shift =
     (if shift < 32
      then Some (push_bit (unat shift) v OR drop_bit (unat ((32 - shift) AND 0x1f)) v)
      else None)"

definition buzhash_init_table :: "u32 \<Rightarrow> u32 list" where
  "buzhash_init_table seed = map (\<lambda>t. t XOR seed) table_base"

text \<open>
  The loop of \<^verbatim>\<open>_buzhash\<close>: \<^verbatim>\<open>for i in range(len - 1, 0, -1)\<close> with the pointer \<^verbatim>\<open>data\<close> advancing
  by one byte per round, followed by \<^verbatim>\<open>return sum ^ h[data[0]]\<close>. The list argument holds the
  bytes that are readable from the pointer on; reading past them is \<open>None\<close>.
\<close>

fun buzhash_loop :: "u8 list \<Rightarrow> nat \<Rightarrow> u32 list \<Rightarrow> u32 \<Rightarrow> u32 option" where
  "buzhash_loop ds 0 h hsum =
     (case ds of [] \<Rightarrow> None | d # _ \<Rightarrow> Some (hsum XOR h ! unat d))"
| "buzhash_loop ds (Suc i) h hsum =
     (case ds of
        [] \<Rightarrow> None
      | d # rest \<Rightarrow>
          (case BARREL_SHIFT (h ! unat d) ((word_of_nat (Suc i) :: u32) AND 0x1f) of
             None \<Rightarrow> None
           | Some r \<Rightarrow> buzhash_loop rest i h (hsum XOR r)))"

text \<open>
  \<^verbatim>\<open>_buzhash(data, len, h)\<close>. The counter \<^verbatim>\<open>i\<close> is declared \<^verbatim>\<open>uint32_t\<close>, and Cython compiles
  \<^verbatim>\<open>for i in range(len - 1, 0, -1)\<close> to a count-down in a variable of that type, which starts at
  \<^verbatim>\<open>(len - 1) + 1\<close> reduced to 32 bits, is decremented before each round and ends the loop when
  it is no longer greater than 1. So the loop makes \<open>len mod 2^32 - 1\<close> rounds, with
  \<^verbatim>\<open>i\<close> counting down to 1, and no round at all when \<open>len mod 2^32\<close> is 0 or 1. The final
  \<^verbatim>\<open>return sum ^ h[data[0]]\<close> reads one more byte in every case: for \<^verbatim>\<open>len = 0\<close> the function
  returns the table entry of the byte at \<^verbatim>\<open>data\<close>.
\<close>

definition buzhash_impl :: "u8 list \<Rightarrow> nat \<Rightarrow> u32 list \<Rightarrow> u32 option" where
  "buzhash_impl ds len h = buzhash_loop ds (len mod 2 ^ 32 - 1) h 0"

text \<open>\<^verbatim>\<open>_buzhash_update(sum, remove, add, len, h)\<close>.\<close>

definition buzhash_update_impl :: "u32 \<Rightarrow> u8 \<Rightarrow> u8 \<Rightarrow> nat \<Rightarrow> u32 list \<Rightarrow> u32 option" where
  "buzhash_update_impl hsum remove add len h =
     (let lenmod = (word_of_nat len :: u32) AND 0x1f in
      case BARREL_SHIFT hsum 1 of
        None \<Rightarrow> None
      | Some a \<Rightarrow>
          (case BARREL_SHIFT (h ! unat remove) lenmod of
             None \<Rightarrow> None
           | Some b \<Rightarrow> Some (a XOR b XOR h ! unat add)))"

text \<open>
  The exported Python functions. The parameter \<^verbatim>\<open>seed\<close> is declared \<^verbatim>\<open>unsigned long\<close>
  (64 bits), and is cut down by \<^verbatim>\<open>seed & 0xffffffff\<close> on its way to \<^verbatim>\<open>buzhash_init_table\<close>.
  \<^verbatim>\<open><const unsigned char *> data\<close> is the pointer to the bytes of a \<^verbatim>\<open>bytes\<close> object, which
  CPython stores with a zero byte after the last one: that byte is what \<^verbatim>\<open>_buzhash\<close> reads
  as \<^verbatim>\<open>data[0]\<close> when it is called on \<^verbatim>\<open>b''\<close>.
\<close>

definition buzhash :: "u8 list \<Rightarrow> u64 \<Rightarrow> u32 option" where
  "buzhash ds seed =
     buzhash_impl (ds @ [0]) (length ds) (buzhash_init_table (ucast (seed AND 0xffffffff)))"

definition buzhash_update :: "u32 \<Rightarrow> u8 \<Rightarrow> u8 \<Rightarrow> nat \<Rightarrow> u64 \<Rightarrow> u32 option" where
  "buzhash_update hsum remove add len seed =
     buzhash_update_impl hsum remove add len (buzhash_init_table (ucast (seed AND 0xffffffff)))"

text \<open>
  The closed form of the hash of a window, used to reason about \<open>buzhash_loop\<close>: the byte
  that is \<open>j\<close> positions before the end of the window contributes its table entry rotated
  left by \<open>j\<close>.
\<close>

fun window_hash :: "u32 list \<Rightarrow> u8 list \<Rightarrow> u32" where
  "window_hash h [] = 0"
| "window_hash h (b # bs) = word_rotl (length bs) (h ! unat b) XOR window_hash h bs"

section \<open>Byte sources that are read sequentially\<close>

text \<open>
  \<^verbatim>\<open>fd.read(n)\<close> and \<^verbatim>\<open>os.read(fh, n)\<close> return at most \<open>n\<close> bytes, and no byte at the end of
  the input. A source is the list of the results that its next reads deliver, each one as long
  as the source is willing to make it: a read of \<open>n\<close> bytes takes the first \<open>n\<close> bytes of the
  pending result and leaves the rest of it for the next read. A pending failure makes the read
  raise.
\<close>

datatype pending = Bytes "u8 list" | Fails error

type_synonym source = "pending list"

fun src_read :: "nat \<Rightarrow> source \<Rightarrow> (error + u8 list) \<times> source" where
  "src_read n [] = (Inr [], [])"
| "src_read n (Fails e # rest) = (Inl e, rest)"
| "src_read n (Bytes bs # rest) =
     (if length bs \<le> n then (Inr bs, rest) else (Inr (take n bs), Bytes (drop n bs) # rest))"

text \<open>The outcome of one \<^verbatim>\<open>next()\<close> on a generator or iterator.\<close>

datatype 'a pull = Yield 'a | Raise error | StopIteration

section \<open>ChunkerFailing\<close>

record chunker_failing =
  f_block_size :: nat
  f_map :: string
  f_count :: nat

text \<open>\<^verbatim>\<open>str.upper\<close> on the letters that matter here, the ASCII ones.\<close>

definition upper_char :: "char \<Rightarrow> char" where
  "upper_char c =
     (case map_of (zip ''abcdefghijklmnopqrstuvwxyz'' ''ABCDEFGHIJKLMNOPQRSTUVWXYZ'') c of
        None \<Rightarrow> c
      | Some u \<Rightarrow> u)"

definition ChunkerFailing_init :: "nat \<Rightarrow> string \<Rightarrow> error + chunker_failing" where
  "ChunkerFailing_init block_size m =
     (let m' = map upper_char m in
      if \<not> set m' \<subseteq> {CHR ''R'', CHR ''E''}
      then Inl (ValueError ''unsupported map character'')
      else Inr \<lparr>f_block_size = block_size, f_map = m', f_count = 0\<rparr>)"

text \<open>
  The generator that \<^verbatim>\<open>ChunkerFailing.chunkify\<close> returns: not started, suspended at its
  \<^verbatim>\<open>yield\<close> (with the values of \<^verbatim>\<open>wanted\<close> and \<^verbatim>\<open>got\<close>), or finished.
\<close>

datatype failing_gen = F_NotStarted | F_Suspended nat nat | F_Finished

definition failing_chunkify :: failing_gen where
  "failing_chunkify = F_NotStarted"

text \<open>
  The \<^verbatim>\<open>while True\<close> loop, from its head to the next \<^verbatim>\<open>yield\<close>, \<^verbatim>\<open>raise\<close> or \<^verbatim>\<open>return\<close>.
  With \<^verbatim>\<open>wanted = 0\<close> the loop never leaves: the result is \<open>None\<close>.
\<close>

partial_function (option) failing_loop ::
  "nat \<Rightarrow> chunker_failing \<Rightarrow> source \<Rightarrow> (chunk pull \<times> chunker_failing \<times> source \<times> failing_gen) option"
where
  "failing_loop wanted c src =
     (case src_read wanted src of
        (Inl e, src') \<Rightarrow> Some (Raise e, c, src', F_Finished)
      | (Inr bytes, src') \<Rightarrow>
          (let got = length bytes in
           if got > 0 then
             (if f_map c = [] then Some (Raise IndexError, c, src', F_Finished)
              else
                (let behaviour =
                       (if f_count c < length (f_map c) then f_map c ! f_count c
                        else last (f_map c))
                 in if behaviour = CHR ''E'' then
                      Some (Raise (OSError EIO), c\<lparr>f_count := f_count c + 1\<rparr>, src', F_Finished)
                    else if behaviour = CHR ''R'' then
                      Some (Yield (Chunk (Some bytes) got CH_DATA),
                            c\<lparr>f_count := f_count c + 1\<rparr>, src', F_Suspended wanted got)
                    else
                      Some (Raise (ValueError ''unsupported map character''), c, src',
                            F_Finished)))
           else if got < wanted then Some (StopIteration, c, src', F_Finished)
           else failing_loop wanted c src'))"

declare failing_loop.simps [code]

definition failing_next ::
  "chunker_failing \<Rightarrow> source \<Rightarrow> failing_gen
     \<Rightarrow> (chunk pull \<times> chunker_failing \<times> source \<times> failing_gen) option"
where
  "failing_next c src g =
     (case g of
        F_NotStarted \<Rightarrow> failing_loop (f_block_size c) c src
      | F_Suspended wanted got \<Rightarrow>
          if got < wanted then Some (StopIteration, c, src, F_Finished)
          else failing_loop wanted c src
      | F_Finished \<Rightarrow> Some (StopIteration, c, src, F_Finished))"

section \<open>Chunker: the content-defined chunker\<close>

text \<open>
  Modelled from the spec: \<^verbatim>\<open>constants.zeros\<close>, which \<^verbatim>\<open>chunker.pyx\<close> imports, is a buffer of zero
  bytes (``a process-wide read-only constant of length \<open>\<ge> max_size\<close>''). Its length is the
  parameter \<open>Z\<close> of everything that uses it.
\<close>

definition zeros :: "nat \<Rightarrow> u8 list" where
  "zeros Z = replicate Z 0"

text \<open>\<^verbatim>\<open>bytes.startswith\<close>.\<close>

definition startswith :: "u8 list \<Rightarrow> u8 list \<Rightarrow> bool" where
  "startswith bs prefix = (take (length prefix) bs = prefix)"

text \<open>
  The attributes of a \<^verbatim>\<open>Chunker\<close> object, without \<^verbatim>\<open>chunking_time\<close>. The buffer \<^verbatim>\<open>data\<close> is
  \<open>buffer\<close>, \<^verbatim>\<open>last\<close> is \<open>lastpos\<close> and \<^verbatim>\<open>done\<close> is \<open>finished\<close> here; \<open>fd\<close> stands for both \<^verbatim>\<open>_fd\<close> and \<^verbatim>\<open>fh\<close>.
  The \<^verbatim>\<open>size_t\<close> attributes are natural numbers below \<open>2^64\<close>. The invariant
  \<open>chunker_inv\<close> below holds in every state that the code reaches from a constructor call with a
  window size that is not negative, and no subtraction of the code goes below zero under it.
  The two places where \<^verbatim>\<open>size_t\<close> arithmetic can wrap around after a constructor call with a
  negative window size, before \<^verbatim>\<open>_buzhash\<close> reads outside the buffer, are written with the
  wrap-around: \<open>fill_threshold\<close> and the subtraction \<^verbatim>\<open>self.remaining -= min_size\<close>.
\<close>

record chunker =
  chunk_mask :: u32
  table :: "u32 list"
  buffer :: "u8 list"
  fd :: source
  finished :: bool
  eof :: bool
  min_size :: nat
  buf_size :: nat
  window_size :: nat
  remaining :: nat
  position :: nat
  lastpos :: nat
  bytes_read :: nat
  bytes_yielded :: nat

text \<open>
  \<^verbatim>\<open>1 << e\<close> for a C \<^verbatim>\<open>int\<close> \<open>e\<close>, as \<^verbatim>\<open>__cinit__\<close> computes it for \<^verbatim>\<open>chunk_min_exp\<close>,
  \<^verbatim>\<open>chunk_max_exp\<close> and \<^verbatim>\<open>hash_mask_bits\<close>. For \<open>0 \<le> e \<le> 30\<close> this is \<open>2^e\<close>. For any other
  \<open>e\<close> the C standard does not define the result; the value here is the one of the 32-bit shift
  instruction that the expression is compiled to on x86-64 and AArch64, which takes the count
  modulo 32 and delivers a signed 32-bit result: \<^verbatim>\<open>1 << 32\<close> is 1 and \<^verbatim>\<open>1 << 31\<close> is \<open>-2^31\<close>.
\<close>

definition int_shl1 :: "int \<Rightarrow> int" where
  "int_shl1 e = sint (push_bit (nat (e mod 32)) (1 :: 32 word))"

text \<open>
  The Python integers that a parameter declared \<^verbatim>\<open>int\<close> accepts. For any other the call raises
  \<^verbatim>\<open>OverflowError\<close> before the body of the function runs.
\<close>

definition fits_int :: "int \<Rightarrow> bool" where
  "fits_int x = (- (2 ^ 31) \<le> x \<and> x < 2 ^ 31)"

text \<open>
  \<^verbatim>\<open>Chunker.__cinit__(int seed, int chunk_min_exp, int chunk_max_exp, int hash_mask_bits,\<close>
  \<^verbatim>\<open>int hash_window_size)\<close>. The locals \<^verbatim>\<open>min_size\<close> and \<^verbatim>\<open>max_size\<close> are Python integers that hold
  the results of the two C shifts, and both assertions compare Python integers. The
  assignments to the attributes convert: \<^verbatim>\<open>self.window_size = hash_window_size\<close> turns a negative
  \<^verbatim>\<open>int\<close> into a \<^verbatim>\<open>size_t\<close> just below \<open>2^64\<close>, \<^verbatim>\<open>self.chunk_mask = (1 << hash_mask_bits) - 1\<close>
  keeps the low 32 bits of the \<^verbatim>\<open>int\<close>, \<^verbatim>\<open>seed & 0xffffffff\<close> those of the seed, and
  \<^verbatim>\<open>self.min_size = min_size\<close> and \<^verbatim>\<open>self.buf_size = max_size\<close> raise \<^verbatim>\<open>OverflowError\<close> for a
  negative Python integer. \<open>mem\<close> is what the block returned by \<^verbatim>\<open>malloc(self.buf_size)\<close> holds,
  which is arbitrary; a shorter \<open>mem\<close> is filled up with zero bytes.
\<close>

definition Chunker_cinit ::
  "nat \<Rightarrow> u8 list \<Rightarrow> int \<Rightarrow> int \<Rightarrow> int \<Rightarrow> int \<Rightarrow> int \<Rightarrow> error + chunker"
where
  "Chunker_cinit Z mem seed chunk_min_exp chunk_max_exp hash_mask_bits hash_window_size =
     (if \<not> (fits_int seed \<and> fits_int chunk_min_exp \<and> fits_int chunk_max_exp \<and>
             fits_int hash_mask_bits \<and> fits_int hash_window_size)
      then Inl OverflowError
      else
        (let min_sz = int_shl1 chunk_min_exp; max_sz = int_shl1 chunk_max_exp in
         if \<not> max_sz \<le> int Z then Inl AssertionError
         else if \<not> hash_window_size + min_sz + 1 \<le> max_sz then Inl AssertionError
         else if min_sz < 0 \<or> max_sz < 0 then Inl OverflowError
         else Inr \<lparr>
           chunk_mask = word_of_int (int_shl1 hash_mask_bits - 1),
           table = buzhash_init_table (word_of_int seed AND 0xffffffff),
           buffer = take (nat max_sz) (mem @ replicate (nat max_sz) 0),
           fd = [],
           finished = False,
           eof = False,
           min_size = nat min_sz,
           buf_size = nat max_sz,
           window_size = nat (hash_window_size mod 2 ^ 64),
           remaining = 0,
           position = 0,
           lastpos = 0,
           bytes_read = 0,
           bytes_yielded = 0\<rparr>))"

text \<open>\<^verbatim>\<open>Chunker.chunkify(fd, fh)\<close>: binds the source and resets the state.\<close>

definition chunkify :: "chunker \<Rightarrow> source \<Rightarrow> chunker" where
  "chunkify s src =
     s\<lparr>fd := src, finished := False, remaining := 0, bytes_read := 0, bytes_yielded := 0,
       position := 0, lastpos := 0, eof := False\<rparr>"

text \<open>\<^verbatim>\<open>memmove(data, data + src, n)\<close> and \<^verbatim>\<open>memcpy(data + dst, bytes, len(bytes))\<close>.\<close>

definition memmove_to_front :: "u8 list \<Rightarrow> nat \<Rightarrow> nat \<Rightarrow> u8 list" where
  "memmove_to_front b src n = take n (drop src b) @ drop n b"

definition memcpy_at :: "u8 list \<Rightarrow> nat \<Rightarrow> u8 list \<Rightarrow> u8 list" where
  "memcpy_at b dst bytes = take dst b @ bytes @ drop (dst + length bytes) b"

text \<open>
  \<^verbatim>\<open>Chunker.fill\<close>. The result is the exception it raises, if any, and the state it leaves.
  The two branches of the code, \<^verbatim>\<open>read(self.fh, ...)\<close> and \<^verbatim>\<open>self._fd.read(n)\<close>, do the
  same with what the read delivers.
\<close>

definition fill :: "chunker \<Rightarrow> error option \<times> chunker" where
  "fill s =
     (let s1 = s\<lparr>buffer := memmove_to_front (buffer s) (lastpos s)
                               (position s + remaining s - lastpos s),
                 position := position s - lastpos s,
                 lastpos := 0\<rparr>;
          n = buf_size s1 - position s1 - remaining s1
      in if eof s1 \<or> n = 0 then (None, s1)
         else
           (case src_read n (fd s1) of
              (Inl e, src') \<Rightarrow> (Some e, s1\<lparr>fd := src'\<rparr>)
            | (Inr bytes, src') \<Rightarrow>
                if length bytes > 0 then
                  (None, s1\<lparr>buffer := memcpy_at (buffer s1) (position s1 + remaining s1) bytes,
                             remaining := remaining s1 + length bytes,
                             bytes_read := bytes_read s1 + length bytes,
                             fd := src'\<rparr>)
                else (None, s1\<lparr>eof := True, fd := src'\<rparr>)))"

text \<open>\<^verbatim>\<open>min_size + window_size + 1\<close> in \<^verbatim>\<open>Chunker.process\<close>, a sum of \<^verbatim>\<open>size_t\<close> values.\<close>

definition fill_threshold :: "chunker \<Rightarrow> nat" where
  "fill_threshold s = (min_size s + window_size s + 1) mod 2 ^ 64"

text \<open>
  The first loop of \<^verbatim>\<open>Chunker.process\<close>:
  \<^verbatim>\<open>while self.remaining < min_size + window_size + 1 and not self.eof: self.fill()\<close>.
\<close>

partial_function (option) fill_loop :: "chunker \<Rightarrow> (error option \<times> chunker) option" where
  "fill_loop s =
     (if remaining s < fill_threshold s \<and> \<not> eof s then
        (case fill s of
           (Some e, s') \<Rightarrow> Some (Some e, s')
         | (None, s') \<Rightarrow> fill_loop s')
      else Some (None, s))"

declare fill_loop.simps [code]

text \<open>
  The innermost loop
  \<^verbatim>\<open>while p < stop_at and (sum & chunk_mask): sum = _buzhash_update(sum, p[0], p[window_size], ...); p += 1\<close>,
  with \<open>p\<close> and \<open>stop_at\<close> as indices into the buffer. A read outside the buffer is undefined.
\<close>

function slide ::
  "u32 list \<Rightarrow> u32 \<Rightarrow> nat \<Rightarrow> u8 list \<Rightarrow> nat \<Rightarrow> nat \<Rightarrow> u32 \<Rightarrow> error + nat \<times> u32"
where
  "slide h msk W b p stop_at hsum =
     (if p < stop_at \<and> hsum AND msk \<noteq> 0 then
        (if \<not> p + W < length b then Inl UndefinedBehaviour
         else
           (case buzhash_update_impl hsum (b ! p) (b ! (p + W)) W h of
              None \<Rightarrow> Inl UndefinedBehaviour
            | Some hsum' \<Rightarrow> slide h msk W b (p + 1) stop_at hsum'))
      else Inr (p, hsum))"
  by pat_completeness auto
termination
  by (relation "measure (\<lambda>(h, msk, W, b, p, stop_at, hsum). stop_at - p)") auto

declare slide.simps [simp del]

text \<open>
  The loop \<^verbatim>\<open>while self.remaining > self.window_size and (sum & chunk_mask)\<close> of
  \<^verbatim>\<open>Chunker.process\<close>. The result is the exception raised inside, if any, the state and \<^verbatim>\<open>sum\<close>.
\<close>

partial_function (option) cut_loop ::
  "chunker \<Rightarrow> u32 \<Rightarrow> (error option \<times> chunker \<times> u32) option"
where
  "cut_loop s hsum =
     (if remaining s > window_size s \<and> hsum AND chunk_mask s \<noteq> 0 then
        (let p = position s;
             stop_at = p + remaining s - window_size s
         in case slide (table s) (chunk_mask s) (window_size s) (buffer s) p stop_at hsum of
              Inl e \<Rightarrow> Some (Some e, s, hsum)
            | Inr (p', hsum') \<Rightarrow>
                (let did_bytes = p' - position s;
                     s1 = s\<lparr>position := position s + did_bytes,
                             remaining := remaining s - did_bytes\<rparr>
                 in if remaining s1 \<le> window_size s1 then
                      (case fill s1 of
                         (Some e, s2) \<Rightarrow> Some (Some e, s2, hsum')
                       | (None, s2) \<Rightarrow> cut_loop s2 hsum')
                    else cut_loop s1 hsum'))
      else Some (None, s, hsum))"

declare cut_loop.simps [code]

text \<open>
  \<^verbatim>\<open>Chunker.process\<close>: the next chunk as the bytes of the memory view that the code returns.
  \<open>None\<close> stands for a call that does not return. \<^verbatim>\<open>_buzhash\<close> is handed the pointer
  \<^verbatim>\<open>self.data + self.position\<close>, from which the rest of the buffer can be read.
\<close>

definition process :: "chunker \<Rightarrow> (u8 list pull \<times> chunker) option" where
  "process s =
     (if finished s then
        (if bytes_read s = bytes_yielded s then Some (StopIteration, s)
         else Some (Raise ByteCountMismatch, s))
      else
        (case fill_loop s of
           None \<Rightarrow> None
         | Some (Some e, s1) \<Rightarrow> Some (Raise e, s1)
         | Some (None, s1) \<Rightarrow>
             if eof s1 then
               (let s2 = s1\<lparr>finished := True\<rparr> in
                if remaining s2 \<noteq> 0 then
                  Some (Yield (take (remaining s2) (drop (position s2) (buffer s2))),
                        s2\<lparr>bytes_yielded := bytes_yielded s2 + remaining s2\<rparr>)
                else if bytes_read s2 = bytes_yielded s2 then Some (StopIteration, s2)
                else Some (Raise ByteCountMismatch, s2))
             else
               (let s2 = s1\<lparr>position := position s1 + min_size s1,
                             remaining := (2 ^ 64 + remaining s1 - min_size s1) mod 2 ^ 64\<rparr>
                in case buzhash_impl (drop (position s2) (buffer s2)) (window_size s2) (table s2) of
                     None \<Rightarrow> Some (Raise UndefinedBehaviour, s2)
                   | Some hsum \<Rightarrow>
                       (case cut_loop s2 hsum of
                          None \<Rightarrow> None
                        | Some (Some e, s3, _) \<Rightarrow> Some (Raise e, s3)
                        | Some (None, s3, _) \<Rightarrow>
                            (let s4 = (if remaining s3 \<le> window_size s3
                                       then s3\<lparr>position := position s3 + remaining s3,
                                               remaining := 0\<rparr>
                                       else s3);
                                 old_last = lastpos s4;
                                 s5 = s4\<lparr>lastpos := position s4\<rparr>;
                                 n = lastpos s5 - old_last;
                                 s6 = s5\<lparr>bytes_yielded := bytes_yielded s5 + n\<rparr>
                             in Some (Yield (take n (drop old_last (buffer s6))), s6))))))"

text \<open>\<^verbatim>\<open>Chunker.__next__\<close>: the chunk from \<^verbatim>\<open>process\<close>, classified against \<^verbatim>\<open>zeros\<close>.\<close>

definition classify :: "nat \<Rightarrow> u8 list \<Rightarrow> chunk" where
  "classify Z d =
     (if startswith (zeros Z) d then Chunk None (length d) CH_ALLOC
      else Chunk (Some d) (length d) CH_DATA)"

definition chunker_next :: "nat \<Rightarrow> chunker \<Rightarrow> (chunk pull \<times> chunker) option" where
  "chunker_next Z s =
     (case process s of
        None \<Rightarrow> None
      | Some (Yield d, s') \<Rightarrow> Some (Yield (classify Z d), s')
      | Some (Raise e, s') \<Rightarrow> Some (Raise e, s')
      | Some (StopIteration, s') \<Rightarrow> Some (StopIteration, s'))"

text \<open>
  A consumer that pulls until the iterator stops or raises, as \<^verbatim>\<open>list(chunker.chunkify(fd))\<close>
  does: the chunks in the order of their emission, the exception that ended the iteration (if
  it was not \<^verbatim>\<open>StopIteration\<close>), and the final state.
\<close>

partial_function (option) chunker_drain ::
  "nat \<Rightarrow> chunker \<Rightarrow> chunk list \<Rightarrow> (chunk list \<times> error option \<times> chunker) option"
where
  "chunker_drain Z s acc =
     (case chunker_next Z s of
        None \<Rightarrow> None
      | Some (Yield c, s') \<Rightarrow> chunker_drain Z s' (acc @ [c])
      | Some (Raise e, s') \<Rightarrow> Some (acc, Some e, s')
      | Some (StopIteration, s') \<Rightarrow> Some (acc, None, s'))"

declare chunker_drain.simps [code]

section \<open>Seekable files\<close>

text \<open>
  \<^verbatim>\<open>ChunkerFixed\<close> and \<^verbatim>\<open>sparsemap\<close> reach their file through \<^verbatim>\<open>dread\<close>, \<^verbatim>\<open>dseek\<close> and
  \<^verbatim>\<open>dpos_curr_end\<close>. A file is the list of its bytes, where a byte inside a hole is \<open>None\<close> and
  reads as zero, and the position of the file pointer. A file that cannot seek at all (a pipe)
  has \<open>seekable = False\<close>; a file whose filesystem refuses \<^verbatim>\<open>SEEK_DATA\<close> and \<^verbatim>\<open>SEEK_HOLE\<close>
  names the errno of that refusal in \<open>seek_hole_errno\<close>.
\<close>

datatype whence = SEEK_SET | SEEK_CUR | SEEK_END | SEEK_DATA | SEEK_HOLE

record fileobj =
  cells :: "u8 option list"
  fpos :: nat
  seekable :: bool
  seek_hole_errno :: "nat option"

definition ESPIPE :: nat where "ESPIPE = 29"
definition EINVAL :: nat where "EINVAL = 22"

definition file_bytes :: "fileobj \<Rightarrow> u8 list" where
  "file_bytes f = map (\<lambda>c. case c of None \<Rightarrow> 0 | Some b \<Rightarrow> b) (cells f)"

text \<open>The first index from \<open>i\<close> on whose cell satisfies \<open>P\<close>.\<close>

fun find_from :: "('a \<Rightarrow> bool) \<Rightarrow> nat \<Rightarrow> 'a list \<Rightarrow> nat option" where
  "find_from P i [] = None"
| "find_from P i (x # xs) =
     (case i of
        0 \<Rightarrow> (if P x then Some 0 else map_option Suc (find_from P 0 xs))
      | Suc j \<Rightarrow> map_option Suc (find_from P j xs))"

text \<open>
  \<^verbatim>\<open>dseek(amount, whence, fd, fh)\<close>, that is \<^verbatim>\<open>os.lseek\<close> or \<^verbatim>\<open>fd.seek\<close>: the new absolute
  position, or an \<^verbatim>\<open>OSError\<close> that leaves the file pointer where it was. \<^verbatim>\<open>SEEK_DATA\<close> and
  \<^verbatim>\<open>SEEK_HOLE\<close> fail with \<^verbatim>\<open>ENXIO\<close> at or after the end of the file, and \<^verbatim>\<open>SEEK_DATA\<close> also when
  no data follows; the end of the file counts as a hole.
\<close>

definition seek_to :: "int \<Rightarrow> fileobj \<Rightarrow> (error + nat) \<times> fileobj" where
  "seek_to target f =
     (if target < 0 then (Inl (OSError EINVAL), f)
      else (Inr (nat target), f\<lparr>fpos := nat target\<rparr>))"

definition dseek :: "int \<Rightarrow> whence \<Rightarrow> fileobj \<Rightarrow> (error + nat) \<times> fileobj" where
  "dseek amount wh f =
     (if \<not> seekable f then (Inl (OSError ESPIPE), f)
      else
        (case wh of
           SEEK_SET \<Rightarrow> seek_to amount f
         | SEEK_CUR \<Rightarrow> seek_to (int (fpos f) + amount) f
         | SEEK_END \<Rightarrow> seek_to (int (length (cells f)) + amount) f
         | SEEK_DATA \<Rightarrow>
             (case seek_hole_errno f of
                Some e \<Rightarrow> (Inl (OSError e), f)
              | None \<Rightarrow>
                  if amount < 0 \<or> int (length (cells f)) \<le> amount then (Inl (OSError ENXIO), f)
                  else
                    (case find_from (\<lambda>c. c \<noteq> None) (nat amount) (cells f) of
                       None \<Rightarrow> (Inl (OSError ENXIO), f)
                     | Some i \<Rightarrow> seek_to (int i) f))
         | SEEK_HOLE \<Rightarrow>
             (case seek_hole_errno f of
                Some e \<Rightarrow> (Inl (OSError e), f)
              | None \<Rightarrow>
                  if amount < 0 \<or> int (length (cells f)) \<le> amount then (Inl (OSError ENXIO), f)
                  else
                    (case find_from (\<lambda>c. c = None) (nat amount) (cells f) of
                       None \<Rightarrow> seek_to (int (length (cells f))) f
                     | Some i \<Rightarrow> seek_to (int i) f))))"

text \<open>
  What the caller and the environment decide about the reads of a file: whether the caller has
  passed an OS-level handle (\<^verbatim>\<open>fh >= 0\<close>), so that \<^verbatim>\<open>dread\<close> uses \<^verbatim>\<open>os.read\<close> and not \<^verbatim>\<open>fd.read\<close>;
  whether the platform has \<^verbatim>\<open>os.posix_fadvise\<close>; the errno with which a read at a file position
  fails, if it does; and the number of bytes to which a read at a file position is limited, if
  it is (a pipe or a terminal delivers what is there).
\<close>

record read_env =
  use_fh :: bool
  has_fadvise :: bool
  read_errno :: "nat \<Rightarrow> nat option"
  read_limit :: "nat \<Rightarrow> nat option"

text \<open>
  \<^verbatim>\<open>dread(offset, size, fd, fh)\<close>, that is \<^verbatim>\<open>os.read\<close> followed by \<^verbatim>\<open>os.posix_fadvise\<close>, or
  \<^verbatim>\<open>fd.read\<close>. \<^verbatim>\<open>size\<close> is a Python integer: \<^verbatim>\<open>os.read\<close> refuses a negative one with \<^verbatim>\<open>EINVAL\<close>,
  \<^verbatim>\<open>fd.read\<close> takes it as a request for all that is left. A read raises \<^verbatim>\<open>OSError\<close> and leaves
  the file pointer where it is, or it delivers the bytes at the file pointer: \<open>size\<close> of them,
  or fewer at the end of the file and where the environment limits the read. \<^verbatim>\<open>posix_fadvise\<close>
  raises \<^verbatim>\<open>OSError\<close> with \<^verbatim>\<open>ESPIPE\<close> on a file that cannot seek, when the bytes have been read
  already.
\<close>

definition dread :: "read_env \<Rightarrow> nat \<Rightarrow> int \<Rightarrow> fileobj \<Rightarrow> (error + u8 list) \<times> fileobj" where
  "dread env offset sz f =
     (case read_errno env (fpos f) of
        Some e \<Rightarrow> (Inl (OSError e), f)
      | None \<Rightarrow>
          if sz < 0 \<and> use_fh env then (Inl (OSError EINVAL), f)
          else
            (let avail = drop (fpos f) (file_bytes f);
                 n = (if sz < 0 then length avail
                      else (case read_limit env (fpos f) of
                              None \<Rightarrow> nat sz
                            | Some k \<Rightarrow> min (nat sz) k));
                 d = take n avail;
                 f' = f\<lparr>fpos := fpos f + length d\<rparr>
             in if use_fh env \<and> has_fadvise env \<and> \<not> seekable f
                then (Inl (OSError ESPIPE), f')
                else (Inr d, f')))"

definition dpos_curr_end :: "fileobj \<Rightarrow> (error + nat \<times> nat) \<times> fileobj" where
  "dpos_curr_end f =
     (case dseek 0 SEEK_CUR f of
        (Inl e, f1) \<Rightarrow> (Inl e, f1)
      | (Inr cur, f1) \<Rightarrow>
          (case dseek 0 SEEK_END f1 of
             (Inl e, f2) \<Rightarrow> (Inl e, f2)
           | (Inr end, f2) \<Rightarrow>
               (case dseek (int cur) SEEK_SET f2 of
                  (Inl e, f3) \<Rightarrow> (Inl e, f3)
                | (Inr _, f3) \<Rightarrow> (Inr (cur, end), f3))))"

section \<open>sparsemap\<close>

text \<open>
  The generator \<^verbatim>\<open>sparsemap(fd, fh)\<close>: not started; suspended at the \<^verbatim>\<open>yield\<close> of the loop body
  with its local variables \<^verbatim>\<open>end\<close>, \<^verbatim>\<open>is_data\<close>, \<^verbatim>\<open>curr\<close> and \<^verbatim>\<open>file_len\<close>; suspended at the
  \<^verbatim>\<open>yield\<close> of the \<^verbatim>\<open>ENXIO\<close> handler, which is followed by \<^verbatim>\<open>break\<close>, with \<^verbatim>\<open>curr\<close>; or finished.
  (\<^verbatim>\<open>curr\<close> is written \<open>cur\<close> below.)
\<close>

datatype sparsemap_gen =
    SM_NotStarted
  | SM_Yielded nat bool nat nat
  | SM_LastYielded nat
  | SM_Finished

type_synonym range = "nat \<times> nat \<times> bool"

text \<open>
  The \<^verbatim>\<open>finally\<close> block, \<^verbatim>\<open>dseek(curr, os.SEEK_SET, fd, fh)\<close>, followed by what the generator was
  about to do: an exception of the block itself replaces it.
\<close>

definition sparsemap_finally ::
  "nat \<Rightarrow> fileobj \<Rightarrow> range pull \<Rightarrow> range pull \<times> sparsemap_gen \<times> fileobj"
where
  "sparsemap_finally cur f r =
     (case dseek (int cur) SEEK_SET f of
        (Inl e, f') \<Rightarrow> (Raise e, SM_Finished, f')
      | (Inr _, f') \<Rightarrow> (r, SM_Finished, f'))"

text \<open>
  The \<^verbatim>\<open>while True\<close> loop from its head to the next \<^verbatim>\<open>yield\<close> or to the end of the generator.
  Ranges of length zero are passed over without a \<^verbatim>\<open>yield\<close>.
\<close>

partial_function (option) sparsemap_loop ::
  "nat \<Rightarrow> whence \<Rightarrow> nat \<Rightarrow> nat \<Rightarrow> fileobj \<Rightarrow> (range pull \<times> sparsemap_gen \<times> fileobj) option"
where
  "sparsemap_loop start wh cur file_len f =
     (let is_data = (wh = SEEK_HOLE) in
      case dseek (int start) wh f of
        (Inl err, f1) \<Rightarrow>
          if err = OSError ENXIO then
            (if \<not> is_data \<and> start < file_len then
               Some (Yield (start, file_len - start, is_data), SM_LastYielded cur, f1)
             else Some (sparsemap_finally cur f1 StopIteration))
          else Some (sparsemap_finally cur f1 (Raise err))
      | (Inr end, f1) \<Rightarrow>
          if end > start then
            Some (Yield (start, end - start, is_data), SM_Yielded end is_data cur file_len, f1)
          else sparsemap_loop end (if is_data then SEEK_DATA else SEEK_HOLE) cur file_len f1)"

declare sparsemap_loop.simps [code]

definition sparsemap_next ::
  "sparsemap_gen \<Rightarrow> fileobj \<Rightarrow> (range pull \<times> sparsemap_gen \<times> fileobj) option"
where
  "sparsemap_next g f =
     (case g of
        SM_NotStarted \<Rightarrow>
          (case dpos_curr_end f of
             (Inl e, f1) \<Rightarrow> Some (Raise e, SM_Finished, f1)
           | (Inr (cur, file_len), f1) \<Rightarrow> sparsemap_loop cur SEEK_HOLE cur file_len f1)
      | SM_Yielded end is_data cur file_len \<Rightarrow>
          sparsemap_loop end (if is_data then SEEK_DATA else SEEK_HOLE) cur file_len f
      | SM_LastYielded cur \<Rightarrow> Some (sparsemap_finally cur f StopIteration)
      | SM_Finished \<Rightarrow> Some (StopIteration, SM_Finished, f))"

text \<open>
  \<^verbatim>\<open>generator.close()\<close>, which is also what happens to a generator that is abandoned: a
  generator suspended at a \<^verbatim>\<open>yield\<close> inside the \<^verbatim>\<open>try\<close> runs its \<^verbatim>\<open>finally\<close> block. The result
  names the exception that the block raised, if any.
\<close>

definition sparsemap_close :: "sparsemap_gen \<Rightarrow> fileobj \<Rightarrow> error option \<times> sparsemap_gen \<times> fileobj" where
  "sparsemap_close g f =
     (case g of
        SM_Yielded end is_data cur file_len \<Rightarrow>
          (case dseek (int cur) SEEK_SET f of
             (Inl e, f') \<Rightarrow> (Some e, SM_Finished, f')
           | (Inr _, f') \<Rightarrow> (None, SM_Finished, f'))
      | SM_LastYielded cur \<Rightarrow>
          (case dseek (int cur) SEEK_SET f of
             (Inl e, f') \<Rightarrow> (Some e, SM_Finished, f')
           | (Inr _, f') \<Rightarrow> (None, SM_Finished, f'))
      | _ \<Rightarrow> (None, SM_Finished, f))"

text \<open>The position that a started generator has recorded in \<^verbatim>\<open>curr\<close>.\<close>

definition recorded_curr :: "sparsemap_gen \<Rightarrow> nat option" where
  "recorded_curr g =
     (case g of
        SM_Yielded end is_data cur file_len \<Rightarrow> Some cur
      | SM_LastYielded cur \<Rightarrow> Some cur
      | _ \<Rightarrow> None)"

text \<open>\<^verbatim>\<open>list(sparsemap(fd, fh))\<close>.\<close>

partial_function (option) sparsemap_list ::
  "sparsemap_gen \<Rightarrow> fileobj \<Rightarrow> range list \<Rightarrow> ((error + range list) \<times> fileobj) option"
where
  "sparsemap_list g f acc =
     (case sparsemap_next g f of
        None \<Rightarrow> None
      | Some (Yield r, g', f') \<Rightarrow> sparsemap_list g' f' (acc @ [r])
      | Some (Raise e, g', f') \<Rightarrow> Some (Inl e, f')
      | Some (StopIteration, g', f') \<Rightarrow> Some (Inr acc, f'))"

declare sparsemap_list.simps [code]

section \<open>ChunkerFixed\<close>

record chunker_fixed =
  x_block_size :: int
  x_header_size :: int
  x_try_sparse :: bool

text \<open>
  \<^verbatim>\<open>ChunkerFixed.__init__\<close>. \<open>has_seek_hole\<close> is the module constant of that name, which depends
  on the platform. \<^verbatim>\<open>block_size\<close> and \<^verbatim>\<open>header_size\<close> are Python integers; the constructor
  accepts negative ones.
\<close>

definition ChunkerFixed_init :: "nat \<Rightarrow> bool \<Rightarrow> int \<Rightarrow> int \<Rightarrow> bool \<Rightarrow> error + chunker_fixed" where
  "ChunkerFixed_init Z has_seek_hole block_size header_size sparse =
     (if block_size \<le> int Z
      then Inr \<lparr>x_block_size = block_size, x_header_size = header_size,
                x_try_sparse = (sparse \<and> has_seek_hole)\<rparr>
      else Inl AssertionError)"

text \<open>
  The first part of \<^verbatim>\<open>ChunkerFixed.chunkify\<close>: the file map that the loops walk over. Any
  \<^verbatim>\<open>OSError\<close> while the sparse map is built is passed over (\<^verbatim>\<open>except OSError: pass\<close>) and the
  map of a file without holes is used instead.
\<close>

definition fake_fmap :: "chunker_fixed \<Rightarrow> range list" where
  "fake_fmap c =
     (if x_header_size c > 0
      then [(0, nat (x_header_size c), True), (nat (x_header_size c), 2 ^ 62, True)]
      else [(0, 2 ^ 62, True)])"

definition fixed_build_fmap ::
  "chunker_fixed \<Rightarrow> fileobj \<Rightarrow> range list option \<Rightarrow> (range list \<times> fileobj) option"
where
  "fixed_build_fmap c f fmap =
     (case fmap of
        Some m \<Rightarrow> Some (m, f)
      | None \<Rightarrow>
          if x_try_sparse c then
            (if x_header_size c > 0 then
               (case dseek (x_header_size c) SEEK_SET f of
                  (Inl e, f1) \<Rightarrow> Some (fake_fmap c, f1)
                | (Inr _, f1) \<Rightarrow>
                    (case sparsemap_list SM_NotStarted f1 [] of
                       None \<Rightarrow> None
                     | Some (Inl e, f2) \<Rightarrow> Some (fake_fmap c, f2)
                     | Some (Inr body_map, f2) \<Rightarrow>
                         (case dseek 0 SEEK_SET f2 of
                            (Inl e, f3) \<Rightarrow> Some (fake_fmap c, f3)
                          | (Inr _, f3) \<Rightarrow>
                              Some ((0, nat (x_header_size c), True) # body_map, f3))))
             else
               (case sparsemap_list SM_NotStarted f [] of
                  None \<Rightarrow> None
                | Some (Inl e, f2) \<Rightarrow> Some (fake_fmap c, f2)
                | Some (Inr body_map, f2) \<Rightarrow> Some (body_map, f2)))
          else Some (fake_fmap c, f))"

text \<open>How the walk over one range ends.\<close>

datatype range_end = RangeDone | Returned | Raised error

text \<open>
  The loop \<^verbatim>\<open>while range_size:\<close> over the blocks of one range, with the chunks yielded so far.
  \<^verbatim>\<open>range_size\<close>, \<^verbatim>\<open>wanted\<close> and \<^verbatim>\<open>got\<close> are Python integers: for a hole, \<^verbatim>\<open>got\<close> is the difference
  of the new file position and \<^verbatim>\<open>offset\<close>, whatever it is. The chunk that is yielded for a block of
  data is that of \<open>classify\<close>: the code is the same as in \<^verbatim>\<open>Chunker.__next__\<close>. An exception of
  \<^verbatim>\<open>dread\<close> or \<^verbatim>\<open>dseek\<close> ends the generator.
\<close>

partial_function (option) fixed_blocks ::
  "nat \<Rightarrow> read_env \<Rightarrow> int \<Rightarrow> bool \<Rightarrow> int \<Rightarrow> nat \<Rightarrow> fileobj \<Rightarrow> chunk list
     \<Rightarrow> (chunk list \<times> range_end \<times> nat \<times> fileobj) option"
where
  "fixed_blocks Z env block_size is_data range_size offset f acc =
     (if range_size = 0 then Some (acc, RangeDone, offset, f)
      else
        (let wanted = min range_size block_size in
         if is_data then
           (case dread env offset wanted f of
              (Inl e, f1) \<Rightarrow> Some (acc, Raised e, offset, f1)
            | (Inr d, f1) \<Rightarrow>
                (let got = int (length d) in
                 if got > 0 then
                   (if got < wanted
                    then Some (acc @ [classify Z d], Returned, offset + nat got, f1)
                    else fixed_blocks Z env block_size is_data (range_size - got)
                           (offset + nat got) f1 (acc @ [classify Z d]))
                 else
                   (if got < wanted then Some (acc, Returned, offset, f1)
                    else fixed_blocks Z env block_size is_data range_size offset f1 acc)))
         else
           (case dseek wanted SEEK_CUR f of
              (Inl e, f1) \<Rightarrow> Some (acc, Raised e, offset, f1)
            | (Inr pos, f1) \<Rightarrow>
                (let got = int pos - int offset in
                 if got > 0 then
                   (if got < wanted
                    then Some (acc @ [Chunk None (nat got) CH_HOLE], Returned, offset + nat got, f1)
                    else fixed_blocks Z env block_size is_data (range_size - got)
                           (offset + nat got) f1 (acc @ [Chunk None (nat got) CH_HOLE]))
                 else
                   (if got < wanted then Some (acc, Returned, offset, f1)
                    else fixed_blocks Z env block_size is_data range_size offset f1 acc)))))"

declare fixed_blocks.simps [code]

text \<open>The loop \<^verbatim>\<open>for range_start, range_size, is_data in fmap:\<close>.\<close>

fun fixed_ranges ::
  "nat \<Rightarrow> read_env \<Rightarrow> int \<Rightarrow> range list \<Rightarrow> nat \<Rightarrow> fileobj \<Rightarrow> chunk list
     \<Rightarrow> (chunk list \<times> error option \<times> fileobj) option"
where
  "fixed_ranges Z env block_size [] offset f acc = Some (acc, None, f)"
| "fixed_ranges Z env block_size ((range_start, range_size, is_data) # rest) offset f acc =
     (case (if range_start \<noteq> offset
            then (case dseek (int range_start) SEEK_SET f of
                    (Inl e, f1) \<Rightarrow> Inl (e, f1)
                  | (Inr _, f1) \<Rightarrow> Inr (range_start, f1))
            else Inr (offset, f)) of
        Inl (e, f1) \<Rightarrow> Some (acc, Some e, f1)
      | Inr (offset1, f1) \<Rightarrow>
          (case fixed_blocks Z env block_size is_data (int range_size) offset1 f1 acc of
             None \<Rightarrow> None
           | Some (acc', RangeDone, offset2, f2) \<Rightarrow>
               fixed_ranges Z env block_size rest offset2 f2 acc'
           | Some (acc', Returned, offset2, f2) \<Rightarrow> Some (acc', None, f2)
           | Some (acc', Raised e, offset2, f2) \<Rightarrow> Some (acc', Some e, f2)))"

text \<open>
  \<^verbatim>\<open>list(chunker.chunkify(fd, fh, fmap))\<close> for a \<^verbatim>\<open>ChunkerFixed\<close>: the chunks in the order of their
  emission, the exception that ended the generator (if any), and the file as it is left.
\<close>

definition fixed_chunkify ::
  "nat \<Rightarrow> read_env \<Rightarrow> chunker_fixed \<Rightarrow> fileobj \<Rightarrow> range list option
     \<Rightarrow> (chunk list \<times> error option \<times> fileobj) option"
where
  "fixed_chunkify Z env c f fmap =
     (case fixed_build_fmap c f fmap of
        None \<Rightarrow> None
      | Some (m, f1) \<Rightarrow> fixed_ranges Z env (x_block_size c) m 0 f1 [])"

section \<open>The cuts of a stream, as a function of its bytes\<close>

text \<open>
  Auxiliary notions for the proofs about \<open>Chunker\<close>: what a source still has to deliver, the
  invariant of the buffer indices, and the cut points written as a function of the bytes of the
  stream alone.
\<close>

fun size_src :: "source \<Rightarrow> nat" where
  "size_src [] = 0"
| "size_src (Bytes bs # rest) = Suc (length bs) + size_src rest"
| "size_src (Fails e # rest) = Suc (size_src rest)"

fun stream_of :: "source \<Rightarrow> u8 list" where
  "stream_of [] = []"
| "stream_of (Bytes bs # rest) = bs @ stream_of rest"
| "stream_of (Fails e # rest) = stream_of rest"

fun well_behaved :: "source \<Rightarrow> bool" where
  "well_behaved [] = True"
| "well_behaved (Bytes bs # rest) = (bs \<noteq> [] \<and> well_behaved rest)"
| "well_behaved (Fails e # rest) = False"

definition chunker_inv :: "chunker \<Rightarrow> bool" where
  "chunker_inv s =
     (lastpos s \<le> position s \<and> position s + remaining s \<le> buf_size s \<and>
      length (buffer s) = buf_size s \<and>
      min_size s + window_size s + 1 \<le> buf_size s \<and> 0 < min_size s \<and> buf_size s < 2 ^ 32)"

definition buffered :: "chunker \<Rightarrow> u8 list" where
  "buffered s = take (position s + remaining s - lastpos s) (drop (lastpos s) (buffer s))"

definition same_params :: "chunker \<Rightarrow> chunker \<Rightarrow> bool" where
  "same_params s s' =
     (chunk_mask s' = chunk_mask s \<and> table s' = table s \<and> min_size s' = min_size s \<and>
      buf_size s' = buf_size s \<and> window_size s' = window_size s \<and>
      finished s' = finished s \<and> bytes_yielded s' = bytes_yielded s)"

text \<open>
  The value of \<^verbatim>\<open>sum\<close> in \<^verbatim>\<open>Chunker.process\<close> when the window starts at the byte \<open>q\<close> of the
  stream \<open>S\<close>, where \<open>S\<close> begins with the chunk that is being cut and hashing has started at
  the byte \<open>mn\<close>. For a window of \<open>W \<ge> 1\<close> bytes it is the hash of the \<open>W\<close> bytes from \<open>q\<close> on.
  For \<open>W = 0\<close>, \<^verbatim>\<open>_buzhash\<close> starts with the table entry of the byte at \<open>mn\<close>, and every
  \<^verbatim>\<open>_buzhash_update\<close> removes the byte that it adds and leaves a rotation by one bit.
\<close>

definition hash_at :: "u32 list \<Rightarrow> nat \<Rightarrow> nat \<Rightarrow> u8 list \<Rightarrow> nat \<Rightarrow> u32" where
  "hash_at h W mn S q =
     (if W = 0 then word_rotl (q - mn) (h ! unat (S ! mn))
      else window_hash h (take W (drop q S)))"

text \<open>
  The first position from \<open>q\<close> on where the masked hash is zero and more than \<open>W\<close> bytes are
  left before \<open>L\<close>; \<open>L\<close> if there is none.
\<close>

function find_cut :: "u32 list \<Rightarrow> u32 \<Rightarrow> nat \<Rightarrow> nat \<Rightarrow> u8 list \<Rightarrow> nat \<Rightarrow> nat \<Rightarrow> nat" where
  "find_cut h msk W mn S q L =
     (if q + W < L then
        (if hash_at h W mn S q AND msk = 0 then q
         else find_cut h msk W mn S (Suc q) L)
      else L)"
  by pat_completeness auto

termination
  by (relation "measure (\<lambda>(h, msk, W, mn, S, q, L). L - q)") auto

declare find_cut.simps [simp del]

text \<open>
  The length of the first chunk of the stream \<open>S\<close>: all of it when fewer than \<open>mn + W + 1\<close>
  bytes are left, else the first cut from \<open>mn\<close> on within the first \<open>mx\<close> bytes.
\<close>

definition next_cut :: "u32 list \<Rightarrow> u32 \<Rightarrow> nat \<Rightarrow> nat \<Rightarrow> nat \<Rightarrow> u8 list \<Rightarrow> nat" where
  "next_cut h msk W mn mx S =
     (if length S < mn + W + 1 then length S else find_cut h msk W mn S mn (min (length S) mx))"

definition ready :: "chunker \<Rightarrow> bool" where
  "ready s =
     (\<not> finished s \<and> chunker_inv s \<and> position s = lastpos s \<and> well_behaved (fd s) \<and>
      (eof s \<longrightarrow> fd s = [] \<and> remaining s = 0) \<and>
      bytes_read s = bytes_yielded s + remaining s)"

definition represents :: "chunker \<Rightarrow> u8 list \<Rightarrow> bool" where
  "represents s S =
     ((finished s \<and> bytes_read s = bytes_yielded s \<and> S = []) \<or>
      (ready s \<and> S = buffered s @ stream_of (fd s)))"

definition same_config :: "chunker \<Rightarrow> chunker \<Rightarrow> bool" where
  "same_config s s' =
     (chunk_mask s' = chunk_mask s \<and> table s' = table s \<and> min_size s' = min_size s \<and>
      buf_size s' = buf_size s \<and> window_size s' = window_size s)"

text \<open>The chunks of a stream: its first chunk, and the chunks of the rest.\<close>

function cut_stream :: "u32 list \<Rightarrow> u32 \<Rightarrow> nat \<Rightarrow> nat \<Rightarrow> nat \<Rightarrow> u8 list \<Rightarrow> u8 list list" where
  "cut_stream h msk W mn mx S =
     (if S = [] \<or> next_cut h msk W mn mx S = 0 then []
      else take (next_cut h msk W mn mx S) S
             # cut_stream h msk W mn mx (drop (next_cut h msk W mn mx S) S))"
  by pat_completeness auto

termination
  by (relation "measure (\<lambda>(h, msk, W, mn, mx, S). length S)") auto

declare cut_stream.simps [simp del]

(*DEFS*)

section \<open>Properties of the hash\<close>

lemma length_table_base: "length table_base = 256"
  by (simp add: table_base_def)

lemma length_buzhash_init_table: "length (buzhash_init_table seed) = 256"
  by (simp add: buzhash_init_table_def length_table_base)

lemma unat_and_0x1f: "unat ((w :: u32) AND 0x1f) = unat w mod 32"
proof -
  have "(0x1f :: u32) = mask 5" by (simp add: mask_eq_exp_minus_1)
  then have "w AND 0x1f = take_bit 5 w" by (simp add: take_bit_eq_mask)
  then show ?thesis by (simp add: unsigned_take_bit_eq take_bit_eq_mod unat_mod)
qed

lemma unat_right_shift_count:
  fixes shift :: u32
  assumes "shift < 32"
  shows "unat ((32 - shift) AND 0x1f) = (32 - unat shift) mod 32"
proof -
  have "unat (32 - shift) = 32 - unat shift"
    using assms by (simp add: unat_sub word_le_nat_alt word_less_nat_alt)
  then show ?thesis by (simp add: unat_and_0x1f)
qed

lemma shifts_are_rotation:
  fixes v :: u32
  assumes n: "n < 32"
  shows "push_bit n v OR drop_bit ((32 - n) mod 32) v = word_rotl n v"
proof (rule bit_word_eqI)
  fix k assume k: "k < LENGTH(32)"
  have m: "(k + 32 - n) mod 32 = (if n \<le> k then k - n else 32 + k - n)"
    using n k by (auto simp add: mod_if le_mod_geq)
  have hi: "\<not> bit v (32 + k - n)" if "n \<le> k"
    using that bit_imp_le_length [of v "32 + k - n"] by auto
  show "bit (push_bit n v OR drop_bit ((32 - n) mod 32) v) k = bit (word_rotl n v) k"
    using n k hi by (cases "n = 0") (auto simp add: bit_simps m)
qed

lemma BARREL_SHIFT_rotl:
  "shift < 32 \<Longrightarrow> BARREL_SHIFT v shift = Some (word_rotl (unat shift) v)"
  by (simp add: BARREL_SHIFT_def unat_right_shift_count shifts_are_rotation word_less_nat_alt)

lemma BARREL_SHIFT_undefined: "32 \<le> shift \<Longrightarrow> BARREL_SHIFT v shift = None"
  by (simp add: BARREL_SHIFT_def)

lemma unat_of_nat_and_0x1f: "unat ((word_of_nat k :: u32) AND 0x1f) = k mod 32"
proof -
  have "unat (word_of_nat k :: u32) = k mod 2 ^ 32" by (simp add: unat_of_nat)
  moreover have "(k mod 2 ^ 32) mod 32 = k mod 32"
    by (rule mod_mod_cancel) simp
  ultimately show ?thesis by (simp only: unat_and_0x1f)
qed

lemma word_rotl_mod32: "word_rotl (k mod 32) v = word_rotl k (v :: u32)"
  by (rule bit_word_eqI) (simp add: bit_simps)

lemma BARREL_SHIFT_masked:
  "BARREL_SHIFT v (word_of_nat k AND 0x1f) = Some (word_rotl k v)"
proof -
  have u: "unat ((word_of_nat k :: u32) AND 0x1f) = k mod 32"
    by (rule unat_of_nat_and_0x1f)
  then have "unat ((word_of_nat k :: u32) AND 0x1f) < 32" by simp
  then have "(word_of_nat k :: u32) AND 0x1f < 32"
    by (simp only: word_less_nat_alt) simp
  then have "BARREL_SHIFT v (word_of_nat k AND 0x1f) = Some (word_rotl (k mod 32) v)"
    by (simp only: BARREL_SHIFT_rotl u)
  then show ?thesis by (simp only: word_rotl_mod32)
qed

lemma BARREL_SHIFT_one: "BARREL_SHIFT v 1 = Some (word_rotl 1 v)"
  using BARREL_SHIFT_rotl [of 1 v] by simp

lemma rotation_index_aux: "c < 64 \<Longrightarrow> (64 - c) mod 32 = (32 - c mod 32) mod (32::nat)"
proof (cases "c < 32")
  case True
  then have "64 - c = (32 - c) + 32" by arith
  then have "(64 - c) mod 32 = (32 - c) mod 32" by (simp only: mod_add_self2)
  with True show ?thesis by simp
next
  case False
  assume "c < 64"
  with False have "c mod 32 = c - 32" by (simp add: mod_if)
  moreover have "64 - c = 32 - (c - 32)" using \<open>c < 64\<close> False by arith
  ultimately show ?thesis by (simp only:)
qed

lemma rotation_index:
  "(64 - (a mod 32 + b mod 32)) mod 32 = (32 - (a + b) mod 32) mod (32::nat)"
proof -
  have "a mod 32 < 32" "b mod 32 < 32" by simp_all
  then have "a mod 32 + b mod 32 < 64" by arith
  then have "(64 - (a mod 32 + b mod 32)) mod 32 = (32 - (a mod 32 + b mod 32) mod 32) mod 32"
    by (rule rotation_index_aux)
  also have "(a mod 32 + b mod 32) mod 32 = (a + b) mod 32"
    by (rule mod_add_eq)
  finally show ?thesis .
qed

lemma word_rotr_cong32: "x mod 32 = y mod 32 \<Longrightarrow> word_rotr x (w :: u32) = word_rotr y w"
proof (rule bit_word_eqI)
  fix n assume xy: "x mod 32 = y mod 32" and "n < LENGTH(32)"
  have "(n + x) mod 32 = (n + y) mod 32"
    using xy by (rule mod_add_cong [OF refl])
  then show "bit (word_rotr x w) n = bit (word_rotr y w) n"
    by (simp add: bit_word_rotr_iff)
qed

lemma word_rotl_zero: "word_rotl 0 (w :: u32) = w"
  by (rule bit_word_eqI) (simp add: bit_simps)

lemma word_rotl_word_rotl: "word_rotl a (word_rotl b w) = word_rotl (a + b) (w :: u32)"
  unfolding word_rotl_eq_word_rotr word_rotr_word_rotr_eq
  by (rule word_rotr_cong32) (simp add: rotation_index)

lemma word_rotl_xor: "word_rotl n (x XOR y) = word_rotl n x XOR word_rotl n (y :: u32)"
  by (rule bit_word_eqI) (auto simp add: bit_simps)

lemma window_hash_snoc:
  "window_hash h (bs @ [b]) = word_rotl 1 (window_hash h bs) XOR h ! unat b"
  by (induction bs) (simp_all add: word_rotl_xor word_rotl_word_rotl word_rotl_zero ac_simps)

lemma buzhash_loop_window:
  "i < length ds \<Longrightarrow> buzhash_loop ds i h s = Some (s XOR window_hash h (take (Suc i) ds))"
proof (induction i arbitrary: ds s)
  case 0
  then obtain d rest where "ds = d # rest" by (cases ds) auto
  then show ?case by (simp add: word_rotl_zero)
next
  case (Suc i)
  then obtain d rest where ds: "ds = d # rest" by (cases ds) auto
  with Suc.prems have "i < length rest" by simp
  then have "buzhash_loop rest i h (s XOR word_rotl (Suc i) (h ! unat d)) =
      Some ((s XOR word_rotl (Suc i) (h ! unat d)) XOR window_hash h (take (Suc i) rest))"
    by (rule Suc.IH)
  moreover have "length (take (Suc i) rest) = Suc i"
    using \<open>i < length rest\<close> by simp
  ultimately show ?case
    by (simp add: ds BARREL_SHIFT_masked ac_simps del: of_nat_Suc)
qed

lemma buzhash_impl_window:
  assumes "0 < len" and "len < 2 ^ 32" and "len \<le> length ds"
  shows "buzhash_impl ds len h = Some (window_hash h (take len ds))"
proof -
  from assms have "len - 1 < length ds" by arith
  then have "buzhash_loop ds (len - 1) h 0 = Some (0 XOR window_hash h (take (Suc (len - 1)) ds))"
    by (rule buzhash_loop_window)
  with assms show ?thesis by (simp add: buzhash_impl_def)
qed

lemma buzhash_impl_zero: "buzhash_impl (d # ds) 0 h = Some (h ! unat d)"
  by (simp add: buzhash_impl_def)

lemma buzhash_update_impl_value:
  "buzhash_update_impl s remove add len h =
     Some (word_rotl 1 s XOR word_rotl len (h ! unat remove) XOR h ! unat add)"
  by (simp add: buzhash_update_impl_def BARREL_SHIFT_one BARREL_SHIFT_masked)

lemma rolling_step:
  "word_rotl 1 (window_hash h (b # bs)) XOR word_rotl (Suc (length bs)) (h ! unat b) XOR h ! unat c
     = window_hash h (bs @ [c])"
  by (simp add: window_hash_snoc word_rotl_xor word_rotl_word_rotl ac_simps)

section \<open>Claims about the hash\<close>

text \<open>
  C8. The 32-bit left rotation of the hash, the macro \<^verbatim>\<open>BARREL_SHIFT\<close>, returns its operand
  unchanged for the shift amount 0, and this case is defined: both shift counts of the macro are
  then 0. More generally, a shift amount that is 0 modulo 32 returns the operand unchanged once it
  has been reduced by \<^verbatim>\<open>& 0x1f\<close>, which is how \<^verbatim>\<open>_buzhash\<close> (\<^verbatim>\<open>imod = i & 0x1f\<close>) and
  \<^verbatim>\<open>_buzhash_update\<close> (\<^verbatim>\<open>lenmod = len & 0x1f\<close>) pass every shift amount.
\<close>

theorem BARREL_SHIFT_zero_shift:
  "BARREL_SHIFT v 0 = Some v \<and>
   (unat k mod 32 = 0 \<longrightarrow> BARREL_SHIFT v (k AND 0x1f) = Some v)"
proof
  show "BARREL_SHIFT v 0 = Some v"
    using BARREL_SHIFT_rotl [of 0 v] by (simp add: word_rotl_zero)
  show "unat k mod 32 = 0 \<longrightarrow> BARREL_SHIFT v (k AND 0x1f) = Some v"
  proof
    assume "unat k mod 32 = 0"
    then have "unat (k AND 0x1f) = 0" by (simp only: unat_and_0x1f)
    then have "k AND 0x1f = 0" by (simp only: unat_eq_0)
    then show "BARREL_SHIFT v (k AND 0x1f) = Some v"
      using BARREL_SHIFT_rotl [of 0 v] by (simp add: word_rotl_zero)
  qed
qed

theorem BARREL_SHIFT_zero_shift_witness:
  "unat (64 :: u32) mod 32 = 0 \<and>
   BARREL_SHIFT 0xdeadbeef 0 = Some 0xdeadbeef \<and>
   BARREL_SHIFT 0xdeadbeef (64 AND 0x1f) = Some 0xdeadbeef"
  using BARREL_SHIFT_zero_shift [of "0xdeadbeef" 64] by simp

text \<open>
  C4, as stated, for every window size: one rolling step from the hash of \<^verbatim>\<open>b[0..W]\<close> gives the
  hash of \<^verbatim>\<open>b[1..W+1]\<close>. It fails for the window size 0 with the one-byte string \<^verbatim>\<open>b'\x11'\<close>
  and the seed 0: both hashes are the hash of the empty string, which is the table entry of the
  zero byte, \<^verbatim>\<open>0xe7f831ec\<close>, while the rolling step rotates that value by one bit and gives
  \<^verbatim>\<open>0xcff063d9\<close>.
\<close>

theorem rolling_hash_identity_fails_for_empty_window:
  "buzhash (take 0 [0x11]) 0 = Some 0xe7f831ec \<and>
   buzhash (take 0 (drop 1 [0x11])) 0 = Some 0xe7f831ec \<and>
   buzhash_update 0xe7f831ec ([0x11] ! 0) ([0x11] ! 0) 0 0 = Some 0xcff063d9 \<and>
   \<not> (\<exists>h0 h1. buzhash (take 0 [0x11]) 0 = Some h0 \<and>
        buzhash (take 0 (drop 1 [0x11])) 0 = Some h1 \<and>
        buzhash_update h0 ([0x11] ! 0) ([0x11] ! 0) 0 0 = Some h1)"
proof -
  have t0: "buzhash_init_table 0 ! 0 = 0xe7f831ec"
    by (simp add: buzhash_init_table_def table_base_def)
  have h: "buzhash [] 0 = Some 0xe7f831ec"
    by (simp add: buzhash_def buzhash_impl_zero t0)
  have rot: "word_rotl (Suc 0) (0xe7f831ec :: u32) = 0xcff063d9"
    by code_simp
  have u: "buzhash_update 0xe7f831ec 0x11 0x11 0 0 = Some 0xcff063d9"
    by (simp add: buzhash_update_def buzhash_update_impl_value word_rotl_zero rot)
  from h u show ?thesis by simp
qed

text \<open>
  C4, amended: for every window size \<open>W\<close> with \<open>1 \<le> W < 2^32\<close>, every byte string \<open>b\<close> of
  length at least \<open>W + 1\<close> and every seed, both hashes exist and
  \<^verbatim>\<open>buzhash_update(buzhash(b[0..W], seed), b[0], b[W], W, seed) = buzhash(b[1..W+1], seed)\<close>.
  (The loop counter of \<^verbatim>\<open>_buzhash\<close> has 32 bits: of a longer string it hashes only the first
  \<open>W mod 2^32\<close> bytes.)
\<close>

theorem rolling_hash_identity:
  assumes W: "0 < W" and W32: "W < 2 ^ 32" and len: "W < length b"
  shows "\<exists>h0 h1. buzhash (take W b) seed = Some h0 \<and>
           buzhash (take W (drop 1 b)) seed = Some h1 \<and>
           buzhash_update h0 (b ! 0) (b ! W) W seed = Some h1"
proof -
  define h where "h = buzhash_init_table (ucast (seed AND 0xffffffff))"
  from W obtain n where n: "W = Suc n" by (cases W) auto
  from len obtain b0 rest where b: "b = b0 # rest" by (cases b) auto
  define w where "w = take n rest"
  have nlen: "n < length rest" using len by (simp add: n b)
  have lw: "length w = n" using nlen by (simp add: w_def)
  have first: "take W b = b0 # w" by (simp add: n b w_def)
  have second: "take W (drop 1 b) = w @ [b ! W]"
    using nlen by (simp add: n b w_def take_Suc_conv_app_nth)
  have "buzhash_impl ((b0 # w) @ [0]) W h = Some (window_hash h (take W ((b0 # w) @ [0])))"
    using W32 by (intro buzhash_impl_window) (simp_all add: lw n)
  then have h0: "buzhash (take W b) seed = Some (window_hash h (b0 # w))"
    unfolding buzhash_def h_def [symmetric] first by (simp add: lw n)
  have "buzhash_impl ((w @ [b ! W]) @ [0]) W h
      = Some (window_hash h (take W ((w @ [b ! W]) @ [0])))"
    using W32 by (intro buzhash_impl_window) (simp_all add: lw n)
  then have h1: "buzhash (take W (drop 1 b)) seed = Some (window_hash h (w @ [b ! W]))"
    unfolding buzhash_def h_def [symmetric] second by (simp add: lw n)
  have "buzhash_update (window_hash h (b0 # w)) (b ! 0) (b ! W) W seed =
      Some (word_rotl 1 (window_hash h (b0 # w)) XOR word_rotl (Suc (length w)) (h ! unat b0)
        XOR h ! unat (b ! W))"
    by (simp add: buzhash_update_def buzhash_update_impl_value h_def [symmetric] b lw n)
  then have "buzhash_update (window_hash h (b0 # w)) (b ! 0) (b ! W) W seed =
      Some (window_hash h (w @ [b ! W]))"
    by (simp only: rolling_step)
  with h0 h1 show ?thesis by blast
qed

theorem rolling_hash_identity_witness:
  "(0 :: nat) < 4 \<and> (4 :: nat) < 2 ^ 32 \<and> 4 < length [0x11, 0x22, 0x33, 0x44, 0x55 :: u8] \<and>
   (\<exists>h0 h1. buzhash (take 4 [0x11, 0x22, 0x33, 0x44, 0x55]) 0 = Some h0 \<and>
      buzhash (take 4 (drop 1 [0x11, 0x22, 0x33, 0x44, 0x55])) 0 = Some h1 \<and>
      buzhash_update h0 ([0x11, 0x22, 0x33, 0x44, 0x55] ! 0) ([0x11, 0x22, 0x33, 0x44, 0x55] ! 4)
        4 0 = Some h1)"
  using rolling_hash_identity [of 4 "[0x11, 0x22, 0x33, 0x44, 0x55]" 0] by simp

text \<open>
  C10. The exported functions \<^verbatim>\<open>buzhash\<close> and \<^verbatim>\<open>buzhash_update\<close> depend on the seed only
  through its low 32 bits: a seed \<open>s\<close> and the seed \<open>s mod 2^32\<close> give the same results.
\<close>

theorem seed_low_32_bits:
  "buzhash ds s = buzhash ds (s mod 2 ^ 32) \<and>
   buzhash_update hs r a len s = buzhash_update hs r a len (s mod 2 ^ 32)"
proof -
  have m: "(0xffffffff :: u64) = mask 32" by (simp add: mask_eq_exp_minus_1)
  have "s mod 2 ^ 32 = take_bit 32 s" by (simp add: take_bit_eq_mod)
  then have "(s mod 2 ^ 32) AND 0xffffffff = s AND 0xffffffff"
    by (simp only: m take_bit_eq_mask [symmetric] take_bit_take_bit) simp
  then show ?thesis by (simp only: buzhash_def buzhash_update_def)
qed

section \<open>Claims about ChunkerFailing\<close>

lemma ChunkerFailing_init_RERR:
  "ChunkerFailing_init 4 ''RERR'' = Inr \<lparr>f_block_size = 4, f_map = ''RERR'', f_count = 0\<rparr>"
  by (simp add: ChunkerFailing_init_def upper_char_def)

lemma RERR_block_read:
  assumes "length bs = 4 + k" and "n = 0 \<or> n = 2 \<or> n = 3"
  shows "failing_loop 4 \<lparr>f_block_size = 4, f_map = ''RERR'', f_count = n\<rparr> [Bytes bs] =
    Some (Yield (Chunk (Some (take 4 bs)) 4 CH_DATA),
          \<lparr>f_block_size = 4, f_map = ''RERR'', f_count = n + 1\<rparr>,
          (if k = 0 then [] else [Bytes (drop 4 bs)]), F_Suspended 4 4)"
  using assms by (subst failing_loop.simps) (auto simp add: Let_def)

lemma RERR_block_fails:
  assumes "length bs = 4 + k"
  shows "failing_loop 4 \<lparr>f_block_size = 4, f_map = ''RERR'', f_count = 1\<rparr> [Bytes bs] =
    Some (Raise (OSError EIO), \<lparr>f_block_size = 4, f_map = ''RERR'', f_count = 2\<rparr>,
          (if k = 0 then [] else [Bytes (drop 4 bs)]), F_Finished)"
  using assms by (subst failing_loop.simps) (auto simp add: Let_def)

lemma failing_loop_at_end: "0 < wanted \<Longrightarrow> failing_loop wanted c [] = Some (StopIteration, c, [], F_Finished)"
  by (subst failing_loop.simps) simp

text \<open>
  C6, as stated: \<^verbatim>\<open>ChunkerFailing(4, "RERR")\<close> on an 8-byte source, first pull a \<^verbatim>\<open>DATA\<close> chunk
  of size 4, second pull \<^verbatim>\<open>EIO\<close>, third pull (after resuming via \<^verbatim>\<open>chunkify\<close>) a \<^verbatim>\<open>DATA\<close>
  chunk of size 4, fourth pull the end of the sequence. It fails on the source with the bytes 1
  to 8, both when \<^verbatim>\<open>chunkify\<close> is called again on the same source (first statement) and when it
  is called on a new source with the same 8 bytes (second statement).
\<close>

theorem failing_RERR_as_stated_fails:
  "\<not> (\<exists>c0 ch1 c1 s1 g1 c2 s2 g2 ch3 c3 s3 g3 c4 s4 g4.
        ChunkerFailing_init 4 ''RERR'' = Inr c0 \<and>
        failing_next c0 [Bytes [1, 2, 3, 4, 5, 6, 7, 8]] failing_chunkify
          = Some (Yield ch1, c1, s1, g1) \<and>
        allocation ch1 = CH_DATA \<and> csize ch1 = 4 \<and>
        failing_next c1 s1 g1 = Some (Raise (OSError EIO), c2, s2, g2) \<and>
        failing_next c2 s2 failing_chunkify = Some (Yield ch3, c3, s3, g3) \<and>
        allocation ch3 = CH_DATA \<and> csize ch3 = 4 \<and>
        failing_next c3 s3 g3 = Some (StopIteration, c4, s4, g4)) \<and>
   \<not> (\<exists>c0 ch1 c1 s1 g1 c2 s2 g2 ch3 c3 s3 g3 c4 s4 g4.
        ChunkerFailing_init 4 ''RERR'' = Inr c0 \<and>
        failing_next c0 [Bytes [1, 2, 3, 4, 5, 6, 7, 8]] failing_chunkify
          = Some (Yield ch1, c1, s1, g1) \<and>
        allocation ch1 = CH_DATA \<and> csize ch1 = 4 \<and>
        failing_next c1 s1 g1 = Some (Raise (OSError EIO), c2, s2, g2) \<and>
        failing_next c2 [Bytes [1, 2, 3, 4, 5, 6, 7, 8]] failing_chunkify
          = Some (Yield ch3, c3, s3, g3) \<and>
        allocation ch3 = CH_DATA \<and> csize ch3 = 4 \<and>
        failing_next c3 s3 g3 = Some (StopIteration, c4, s4, g4))"
proof -
  let ?bs = "[1, 2, 3, 4, 5, 6, 7, 8] :: u8 list"
  let ?c = "\<lambda>n. \<lparr>f_block_size = 4, f_map = ''RERR'', f_count = n\<rparr>"
  have p1: "failing_next (?c 0) [Bytes ?bs] failing_chunkify =
      Some (Yield (Chunk (Some (take 4 ?bs)) 4 CH_DATA), ?c 1, [Bytes (drop 4 ?bs)], F_Suspended 4 4)"
    using RERR_block_read [of ?bs 4 0] by (simp add: failing_next_def failing_chunkify_def)
  have p2: "failing_next (?c 1) [Bytes (drop 4 ?bs)] (F_Suspended 4 4) =
      Some (Raise (OSError EIO), ?c 2, [], F_Finished)"
    using RERR_block_fails [of "drop 4 ?bs" 0] by (simp add: failing_next_def)
  have p3: "failing_next (?c 2) [] failing_chunkify = Some (StopIteration, ?c 2, [], F_Finished)"
    by (simp add: failing_next_def failing_chunkify_def failing_loop_at_end)
  have q3: "failing_next (?c 2) [Bytes ?bs] failing_chunkify =
      Some (Yield (Chunk (Some (take 4 ?bs)) 4 CH_DATA), ?c 3, [Bytes (drop 4 ?bs)], F_Suspended 4 4)"
    using RERR_block_read [of ?bs 4 2] by (simp add: failing_next_def failing_chunkify_def)
  have q4: "failing_next (?c 3) [Bytes (drop 4 ?bs)] (F_Suspended 4 4) =
      Some (Yield (Chunk (Some (take 4 (drop 4 ?bs))) 4 CH_DATA), ?c 4, [], F_Suspended 4 4)"
    using RERR_block_read [of "drop 4 ?bs" 0 3] by (simp add: failing_next_def)
  show ?thesis
  proof (intro conjI notI)
    assume "\<exists>c0 ch1 c1 s1 g1 c2 s2 g2 ch3 c3 s3 g3 c4 s4 g4.
        ChunkerFailing_init 4 ''RERR'' = Inr c0 \<and>
        failing_next c0 [Bytes ?bs] failing_chunkify = Some (Yield ch1, c1, s1, g1) \<and>
        allocation ch1 = CH_DATA \<and> csize ch1 = 4 \<and>
        failing_next c1 s1 g1 = Some (Raise (OSError EIO), c2, s2, g2) \<and>
        failing_next c2 s2 failing_chunkify = Some (Yield ch3, c3, s3, g3) \<and>
        allocation ch3 = CH_DATA \<and> csize ch3 = 4 \<and>
        failing_next c3 s3 g3 = Some (StopIteration, c4, s4, g4)"
    then show False
      using p1 p2 p3 by (auto simp add: ChunkerFailing_init_RERR)
  next
    assume "\<exists>c0 ch1 c1 s1 g1 c2 s2 g2 ch3 c3 s3 g3 c4 s4 g4.
        ChunkerFailing_init 4 ''RERR'' = Inr c0 \<and>
        failing_next c0 [Bytes ?bs] failing_chunkify = Some (Yield ch1, c1, s1, g1) \<and>
        allocation ch1 = CH_DATA \<and> csize ch1 = 4 \<and>
        failing_next c1 s1 g1 = Some (Raise (OSError EIO), c2, s2, g2) \<and>
        failing_next c2 [Bytes ?bs] failing_chunkify = Some (Yield ch3, c3, s3, g3) \<and>
        allocation ch3 = CH_DATA \<and> csize ch3 = 4 \<and>
        failing_next c3 s3 g3 = Some (StopIteration, c4, s4, g4)"
    then show False
      using p1 p2 q3 q4 by (auto simp add: ChunkerFailing_init_RERR)
  qed
qed

text \<open>
  C6, amended: \<^verbatim>\<open>ChunkerFailing(4, "RERR")\<close> on a source of 8 bytes. The first pull yields a
  \<^verbatim>\<open>DATA\<close> chunk with the first 4 bytes. The second pull reads the last 4 bytes and raises the
  I/O error \<^verbatim>\<open>EIO\<close>; the generator is finished and the source is at its end. A third pull then
  ends the sequence, on the same generator as well as on a new one from \<^verbatim>\<open>chunkify\<close> over the
  same source. After \<^verbatim>\<open>chunkify\<close> over a new source with the same 8 bytes, the third and the
  fourth pull yield a \<^verbatim>\<open>DATA\<close> chunk of size 4 each, and the fifth pull ends the sequence.
\<close>

theorem failing_RERR_scenario:
  assumes len: "length bs = 8"
  shows "\<exists>c0 c1 c2 c3 c4.
      ChunkerFailing_init 4 ''RERR'' = Inr c0 \<and>
      failing_next c0 [Bytes bs] failing_chunkify =
        Some (Yield (Chunk (Some (take 4 bs)) 4 CH_DATA), c1, [Bytes (drop 4 bs)], F_Suspended 4 4) \<and>
      failing_next c1 [Bytes (drop 4 bs)] (F_Suspended 4 4) =
        Some (Raise (OSError EIO), c2, [], F_Finished) \<and>
      failing_next c2 [] F_Finished = Some (StopIteration, c2, [], F_Finished) \<and>
      failing_next c2 [] failing_chunkify = Some (StopIteration, c2, [], F_Finished) \<and>
      failing_next c2 [Bytes bs] failing_chunkify =
        Some (Yield (Chunk (Some (take 4 bs)) 4 CH_DATA), c3, [Bytes (drop 4 bs)], F_Suspended 4 4) \<and>
      failing_next c3 [Bytes (drop 4 bs)] (F_Suspended 4 4) =
        Some (Yield (Chunk (Some (drop 4 bs)) 4 CH_DATA), c4, [], F_Suspended 4 4) \<and>
      failing_next c4 [] (F_Suspended 4 4) = Some (StopIteration, c4, [], F_Finished)"
proof -
  let ?c = "\<lambda>n. \<lparr>f_block_size = 4, f_map = ''RERR'', f_count = n\<rparr>"
  have p1: "failing_next (?c 0) [Bytes bs] failing_chunkify =
      Some (Yield (Chunk (Some (take 4 bs)) 4 CH_DATA), ?c 1, [Bytes (drop 4 bs)], F_Suspended 4 4)"
    using RERR_block_read [of bs 4 0] len by (simp add: failing_next_def failing_chunkify_def)
  have p2: "failing_next (?c 1) [Bytes (drop 4 bs)] (F_Suspended 4 4) =
      Some (Raise (OSError EIO), ?c 2, [], F_Finished)"
    using RERR_block_fails [of "drop 4 bs" 0] len by (simp add: failing_next_def)
  have p3: "failing_next (?c 2) [] F_Finished = Some (StopIteration, ?c 2, [], F_Finished)"
    by (simp add: failing_next_def)
  have p3': "failing_next (?c 2) [] failing_chunkify = Some (StopIteration, ?c 2, [], F_Finished)"
    by (simp add: failing_next_def failing_chunkify_def failing_loop_at_end)
  have q3: "failing_next (?c 2) [Bytes bs] failing_chunkify =
      Some (Yield (Chunk (Some (take 4 bs)) 4 CH_DATA), ?c 3, [Bytes (drop 4 bs)], F_Suspended 4 4)"
    using RERR_block_read [of bs 4 2] len by (simp add: failing_next_def failing_chunkify_def)
  have q4: "failing_next (?c 3) [Bytes (drop 4 bs)] (F_Suspended 4 4) =
      Some (Yield (Chunk (Some (drop 4 bs)) 4 CH_DATA), ?c 4, [], F_Suspended 4 4)"
    using RERR_block_read [of "drop 4 bs" 0 3] len by (simp add: failing_next_def)
  have q5: "failing_next (?c 4) [] (F_Suspended 4 4) = Some (StopIteration, ?c 4, [], F_Finished)"
    by (simp add: failing_next_def failing_loop_at_end)
  from p1 p2 p3 p3' q3 q4 q5 show ?thesis
    unfolding ChunkerFailing_init_RERR by blast
qed

theorem failing_RERR_scenario_witness:
  "length [1, 2, 3, 4, 5, 6, 7, 8 :: u8] = 8 \<and>
   (\<exists>c0 c1 c2 c3 c4.
      ChunkerFailing_init 4 ''RERR'' = Inr c0 \<and>
      failing_next c0 [Bytes [1, 2, 3, 4, 5, 6, 7, 8]] failing_chunkify =
        Some (Yield (Chunk (Some [1, 2, 3, 4]) 4 CH_DATA), c1, [Bytes [5, 6, 7, 8]], F_Suspended 4 4) \<and>
      failing_next c1 [Bytes [5, 6, 7, 8]] (F_Suspended 4 4) =
        Some (Raise (OSError EIO), c2, [], F_Finished) \<and>
      failing_next c2 [] F_Finished = Some (StopIteration, c2, [], F_Finished) \<and>
      failing_next c2 [] failing_chunkify = Some (StopIteration, c2, [], F_Finished) \<and>
      failing_next c2 [Bytes [1, 2, 3, 4, 5, 6, 7, 8]] failing_chunkify =
        Some (Yield (Chunk (Some [1, 2, 3, 4]) 4 CH_DATA), c3, [Bytes [5, 6, 7, 8]], F_Suspended 4 4) \<and>
      failing_next c3 [Bytes [5, 6, 7, 8]] (F_Suspended 4 4) =
        Some (Yield (Chunk (Some [5, 6, 7, 8]) 4 CH_DATA), c4, [], F_Suspended 4 4) \<and>
      failing_next c4 [] (F_Suspended 4 4) = Some (StopIteration, c4, [], F_Finished))"
  using failing_RERR_scenario [of "[1, 2, 3, 4, 5, 6, 7, 8]"] by simp

section \<open>Chunker on a well-behaved source: the chunks are the cuts of the stream\<close>

lemma src_read_well_behaved:
  assumes "well_behaved src" and "0 < n"
  shows "\<exists>bytes src'. src_read n src = (Inr bytes, src') \<and> well_behaved src' \<and>
     bytes @ stream_of src' = stream_of src \<and> length bytes \<le> n \<and>
     (bytes = [] \<longrightarrow> src = [] \<and> src' = []) \<and>
     (bytes \<noteq> [] \<longrightarrow> size_src src' < size_src src)"
proof (cases src)
  case Nil
  then show ?thesis by simp
next
  case (Cons p rest)
  with assms obtain bs where p: "p = Bytes bs" and bs: "bs \<noteq> []" and rest: "well_behaved rest"
    by (cases p) auto
  show ?thesis
    using bs rest assms(2) by (auto simp add: Cons p)
qed

lemma fill_fields:
  assumes "fill s = (r, s')"
  shows "chunk_mask s' = chunk_mask s" "table s' = table s" "min_size s' = min_size s"
    "buf_size s' = buf_size s" "window_size s' = window_size s" "finished s' = finished s"
    "bytes_yielded s' = bytes_yielded s" "lastpos s' = 0" "position s' = position s - lastpos s"
  using assms by (auto simp add: fill_def Let_def split: prod.splits sum.splits if_splits)

lemma buffered_compact:
  assumes "lastpos s \<le> position s" and "position s + remaining s \<le> length (buffer s)"
  shows "take (position s + remaining s - lastpos s)
           (memmove_to_front (buffer s) (lastpos s) (position s + remaining s - lastpos s))
         = buffered s"
  using assms by (simp add: memmove_to_front_def buffered_def)

lemma length_memmove_to_front:
  "src + n \<le> length b \<Longrightarrow> length (memmove_to_front b src n) = length b"
  by (simp add: memmove_to_front_def)

lemma length_memcpy_at:
  "dst + length bytes \<le> length b \<Longrightarrow> length (memcpy_at b dst bytes) = length b"
  by (simp add: memcpy_at_def)

lemma take_memcpy_at:
  "dst \<le> length b \<Longrightarrow> take (dst + length bytes) (memcpy_at b dst bytes) = take dst b @ bytes"
  by (simp add: memcpy_at_def)

lemma fill_well_behaved:
  assumes inv: "chunker_inv s" and wb: "well_behaved (fd s)" and eofs: "eof s \<longrightarrow> fd s = []"
  shows "\<exists>s'. fill s = (None, s') \<and> chunker_inv s' \<and> well_behaved (fd s') \<and>
      (eof s' \<longrightarrow> fd s' = []) \<and>
      buffered s' @ stream_of (fd s') = buffered s @ stream_of (fd s) \<and>
      remaining s \<le> remaining s' \<and>
      (remaining s' = remaining s \<longrightarrow> eof s' \<or> position s' + remaining s' = buf_size s') \<and>
      (remaining s < remaining s' \<longrightarrow> size_src (fd s') < size_src (fd s) \<and> \<not> eof s') \<and>
      (eof s \<longrightarrow> eof s') \<and> size_src (fd s') \<le> size_src (fd s) \<and>
      bytes_read s' = bytes_read s + (remaining s' - remaining s)"
proof -
  define n0 where "n0 = position s + remaining s - lastpos s"
  define s1 where "s1 = s\<lparr>buffer := memmove_to_front (buffer s) (lastpos s) n0,
      position := position s - lastpos s, lastpos := 0\<rparr>"
  define navail where "navail = buf_size s1 - position s1 - remaining s1"
  from inv have le: "lastpos s \<le> position s" and fit: "position s + remaining s \<le> buf_size s"
    and len: "length (buffer s) = buf_size s" and big: "min_size s + window_size s + 1 \<le> buf_size s"
    and mn: "0 < min_size s" and b32: "buf_size s < 2 ^ 32"
    by (simp_all add: chunker_inv_def)
  have len1: "length (buffer s1) = buf_size s"
    using le fit len by (simp add: s1_def n0_def length_memmove_to_front)
  have inv1: "chunker_inv s1"
    using le fit big mn len1 b32 by (simp add: chunker_inv_def s1_def)
  have pr1: "position s1 + remaining s1 = n0"
    using le by (simp add: s1_def n0_def)
  have e1: "position s - lastpos s + remaining s = n0"
    using le by (simp add: n0_def)
  have buf1: "buffered s1 = buffered s"
    using fit len le
    by (simp add: buffered_def s1_def e1 memmove_to_front_def) (simp add: n0_def)
  have fill_eq: "fill s = (if eof s1 \<or> navail = 0 then (None, s1)
         else
           (case src_read navail (fd s1) of
              (Inl e, src') \<Rightarrow> (Some e, s1\<lparr>fd := src'\<rparr>)
            | (Inr bytes, src') \<Rightarrow>
                if length bytes > 0 then
                  (None, s1\<lparr>buffer := memcpy_at (buffer s1) (position s1 + remaining s1) bytes,
                             remaining := remaining s1 + length bytes,
                             bytes_read := bytes_read s1 + length bytes,
                             fd := src'\<rparr>)
                else (None, s1\<lparr>eof := True, fd := src'\<rparr>)))"
    unfolding fill_def Let_def navail_def s1_def n0_def by (rule refl)
  show ?thesis
  proof (cases "eof s1 \<or> navail = 0")
    case True
    then have "fill s = (None, s1)" by (simp add: fill_eq)
    moreover have "eof s1 \<or> position s1 + remaining s1 = buf_size s1"
      using True inv1 by (auto simp add: navail_def chunker_inv_def)
    ultimately show ?thesis
      using inv1 buf1 wb eofs by (auto simp add: s1_def)
  next
    case False
    then have nav: "0 < navail" and neof: "\<not> eof s" by (simp_all add: s1_def)
    from src_read_well_behaved [OF _ nav, of "fd s"] wb
    obtain bytes src' where rd: "src_read navail (fd s) = (Inr bytes, src')"
      and wb': "well_behaved src'" and str: "bytes @ stream_of src' = stream_of (fd s)"
      and lb: "length bytes \<le> navail" and emp: "bytes = [] \<longrightarrow> fd s = [] \<and> src' = []"
      and dec: "bytes \<noteq> [] \<longrightarrow> size_src src' < size_src (fd s)"
      by blast
    have rd1: "src_read navail (fd s1) = (Inr bytes, src')" using rd by (simp add: s1_def)
    show ?thesis
    proof (cases "bytes = []")
      case True
      then have "fill s = (None, s1\<lparr>eof := True, fd := src'\<rparr>)"
        using False by (simp add: fill_eq rd1)
      moreover have "chunker_inv (s1\<lparr>eof := True, fd := src'\<rparr>)"
        using inv1 by (simp add: chunker_inv_def)
      moreover have "buffered (s1\<lparr>eof := True, fd := src'\<rparr>) = buffered s"
        using buf1 by (simp add: buffered_def)
      ultimately show ?thesis
        using True emp wb' str by (auto simp add: s1_def)
    next
      case nonempty: False
      define s2 where "s2 = s1\<lparr>buffer := memcpy_at (buffer s1) (position s1 + remaining s1) bytes,
                             remaining := remaining s1 + length bytes,
                             bytes_read := bytes_read s1 + length bytes,
                             fd := src'\<rparr>"
      have f: "fill s = (None, s2)"
        using False nonempty by (simp add: fill_eq rd1 s2_def)
      have "n0 \<le> buf_size s" using fit by (simp add: n0_def)
      then have room: "n0 + length bytes \<le> buf_size s"
        using lb pr1 by (simp add: navail_def s1_def)
      have len2: "length (buffer s2) = buf_size s"
        using room len1 by (simp add: s2_def pr1 length_memcpy_at)
      have inv2: "chunker_inv s2"
        using inv1 room pr1 len2 by (simp add: chunker_inv_def s2_def s1_def)
      have "buffered s2 = take (n0 + length bytes) (memcpy_at (buffer s1) n0 bytes)"
        using pr1 by (simp add: buffered_def s2_def s1_def add.assoc [symmetric])
      also have "\<dots> = take n0 (buffer s1) @ bytes"
        using room len1 by (simp add: take_memcpy_at)
      also have "take n0 (buffer s1) = buffered s1"
        by (simp add: buffered_def s1_def e1)
      also note buf1
      finally have buf2: "buffered s2 = buffered s @ bytes" .
      show ?thesis
        using f inv2 buf2 wb' str dec nonempty neof
        by (auto simp add: s2_def s1_def dest: less_imp_le)
    qed
  qed
qed

lemma same_params_refl: "same_params s s"
  by (simp add: same_params_def)

lemma same_params_trans: "same_params s s' \<Longrightarrow> same_params s' s'' \<Longrightarrow> same_params s s''"
  by (simp add: same_params_def)

lemma fill_same_params: "fill s = (r, s') \<Longrightarrow> same_params s s'"
  by (simp add: same_params_def fill_fields)

lemma fill_threshold_inv:
  assumes "chunker_inv s"
  shows "fill_threshold s = min_size s + window_size s + 1"
proof -
  from assms have "min_size s + window_size s + 1 < 2 ^ 32" by (simp add: chunker_inv_def)
  also have "(2::nat) ^ 32 < 2 ^ 64" by simp
  finally show ?thesis by (simp add: fill_threshold_def)
qed

lemma fill_loop_well_behaved:
  assumes "chunker_inv s" and "position s = lastpos s" and "well_behaved (fd s)"
    and "eof s \<longrightarrow> fd s = [] \<and> remaining s < min_size s + window_size s + 1"
  shows "\<exists>s'. fill_loop s = Some (None, s') \<and> chunker_inv s' \<and> position s' = lastpos s' \<and>
      well_behaved (fd s') \<and>
      (eof s' \<longrightarrow> fd s' = [] \<and> remaining s' < min_size s + window_size s + 1) \<and>
      (\<not> eof s' \<longrightarrow> min_size s + window_size s + 1 \<le> remaining s') \<and>
      buffered s' @ stream_of (fd s') = buffered s @ stream_of (fd s) \<and>
      remaining s \<le> remaining s' \<and>
      bytes_read s' = bytes_read s + (remaining s' - remaining s) \<and>
      same_params s s'"
  using assms
proof (induction "size_src (fd s) + (if eof s then 0 else 1)" arbitrary: s rule: less_induct)
  case less
  note inv = \<open>chunker_inv s\<close> and pl = \<open>position s = lastpos s\<close> and wb = \<open>well_behaved (fd s)\<close>
    and eofs = \<open>eof s \<longrightarrow> fd s = [] \<and> remaining s < min_size s + window_size s + 1\<close>
  note th = fill_threshold_inv [OF inv]
  show ?case
  proof (cases "remaining s < min_size s + window_size s + 1 \<and> \<not> eof s")
    case False
    then have "fill_loop s = Some (None, s)"
      by (subst fill_loop.simps) (auto simp add: th)
    with False inv pl wb eofs show ?thesis
      by (auto simp add: same_params_refl)
  next
    case True
    then have small: "remaining s < min_size s + window_size s + 1" and neof: "\<not> eof s"
      by simp_all
    from fill_well_behaved [OF inv wb] neof
    obtain s1 where f: "fill s = (None, s1)" and inv1: "chunker_inv s1"
      and wb1: "well_behaved (fd s1)" and eof1: "eof s1 \<longrightarrow> fd s1 = []"
      and str1: "buffered s1 @ stream_of (fd s1) = buffered s @ stream_of (fd s)"
      and rem1: "remaining s \<le> remaining s1"
      and same1: "remaining s1 = remaining s \<longrightarrow> eof s1 \<or> position s1 + remaining s1 = buf_size s1"
      and grow1: "remaining s < remaining s1 \<longrightarrow> size_src (fd s1) < size_src (fd s) \<and> \<not> eof s1"
      and sz1: "size_src (fd s1) \<le> size_src (fd s)"
      and br1: "bytes_read s1 = bytes_read s + (remaining s1 - remaining s)"
      by blast
    note ff = fill_fields [OF f]
    have sp1: "same_params s s1" using f by (rule fill_same_params)
    have pl1: "position s1 = lastpos s1" using ff pl by simp
    have notfull: "remaining s1 = remaining s \<longrightarrow> eof s1"
    proof
      assume e: "remaining s1 = remaining s"
      have "position s1 + remaining s1 < buf_size s1"
        using inv small e ff pl by (simp add: chunker_inv_def)
      with same1 e show "eof s1" by simp
    qed
    have meas: "size_src (fd s1) + (if eof s1 then 0 else 1) < size_src (fd s) + (if eof s then 0 else 1)"
      using neof notfull grow1 rem1 sz1 by (cases "remaining s1 = remaining s") auto
    have eof1': "eof s1 \<longrightarrow> fd s1 = [] \<and> remaining s1 < min_size s1 + window_size s1 + 1"
      using eof1 grow1 rem1 small ff by (cases "remaining s1 = remaining s") auto
    from less.hyps [OF meas inv1 pl1 wb1 eof1']
    obtain s' where l: "fill_loop s1 = Some (None, s')" and inv': "chunker_inv s'"
      and pl': "position s' = lastpos s'" and wb': "well_behaved (fd s')"
      and eof': "eof s' \<longrightarrow> fd s' = [] \<and> remaining s' < min_size s1 + window_size s1 + 1"
      and neof': "\<not> eof s' \<longrightarrow> min_size s1 + window_size s1 + 1 \<le> remaining s'"
      and str': "buffered s' @ stream_of (fd s') = buffered s1 @ stream_of (fd s1)"
      and rem': "remaining s1 \<le> remaining s'"
      and br': "bytes_read s' = bytes_read s1 + (remaining s' - remaining s1)"
      and sp': "same_params s1 s'"
      by blast
    have "fill_loop s = Some (None, s')"
      using True f l by (subst fill_loop.simps) (simp add: th)
    moreover have "same_params s s'" using sp1 sp' by (rule same_params_trans)
    ultimately show ?thesis
      using inv' pl' wb' eof' neof' str' str1 rem' rem1 br' br1 ff
      by auto
  qed
qed

lemma find_cut_hit:
  "q + W < L \<Longrightarrow> hash_at h W mn S q AND msk = 0 \<Longrightarrow> find_cut h msk W mn S q L = q"
  by (subst find_cut.simps) simp

lemma find_cut_end: "\<not> q + W < L \<Longrightarrow> find_cut h msk W mn S q L = L"
  by (subst find_cut.simps) simp

lemma find_cut_skip:
  assumes "q \<le> q'" and "q' + W \<le> L"
    and "\<forall>k. q \<le> k \<and> k < q' \<longrightarrow> hash_at h W mn S k AND msk \<noteq> 0"
  shows "find_cut h msk W mn S q L = find_cut h msk W mn S q' L"
  using assms
proof (induction "q' - q" arbitrary: q)
  case 0
  then show ?case by simp
next
  case (Suc d)
  then have lt: "q < q'" by arith
  with Suc.prems have "q + W < L" and "hash_at h W mn S q AND msk \<noteq> 0"
    by auto
  then have "find_cut h msk W mn S q L = find_cut h msk W mn S (Suc q) L"
    by (subst find_cut.simps) simp
  also have "\<dots> = find_cut h msk W mn S q' L"
    using Suc.prems Suc.hyps(2) lt by (intro Suc.hyps(1)) auto
  finally show ?case .
qed

lemma find_cut_bounds:
  "q \<le> L \<Longrightarrow> q \<le> find_cut h msk W mn S q L \<and> find_cut h msk W mn S q L \<le> L"
proof (induction h msk W mn S q L rule: find_cut.induct)
  case (1 h msk W mn S q L)
  show ?case
  proof (cases "q + W < L")
    case False
    with 1 show ?thesis by (simp add: find_cut_end)
  next
    case True
    show ?thesis
    proof (cases "hash_at h W mn S q AND msk = 0")
      case hit: True
      with True 1 show ?thesis by (simp add: find_cut_hit)
    next
      case miss: False
      with True have "find_cut h msk W mn S q L = find_cut h msk W mn S (Suc q) L"
        by (subst find_cut.simps) simp
      moreover have "Suc q \<le> find_cut h msk W mn S (Suc q) L \<and> find_cut h msk W mn S (Suc q) L \<le> L"
        using True miss by (intro "1.IH") auto
      ultimately show ?thesis by simp
    qed
  qed
qed

lemma window_roll:
  assumes W: "0 < W" and inb: "p + W < length b"
  shows "word_rotl 1 (window_hash h (take W (drop p b))) XOR word_rotl W (h ! unat (b ! p))
           XOR h ! unat (b ! (p + W))
         = window_hash h (take W (drop (Suc p) b))"
proof -
  from W obtain n where n: "W = Suc n" by (cases W) auto
  define w where "w = take n (drop (Suc p) b)"
  have lw: "length w = n" using inb by (simp add: w_def n)
  have first: "take W (drop p b) = b ! p # w"
    using inb by (simp add: n w_def Cons_nth_drop_Suc [symmetric])
  have "take W (drop (Suc p) b) = take n (drop (Suc p) b) @ [drop (Suc p) b ! n]"
    unfolding n using inb by (intro take_Suc_conv_app_nth) (simp add: n)
  then have second: "take W (drop (Suc p) b) = w @ [b ! (p + W)]"
    using inb by (simp add: w_def n)
  show ?thesis
    unfolding first second using rolling_step [of h "b ! p" w "b ! (p + W)"]
    by (simp add: lw n)
qed

lemma hash_at_roll:
  assumes "mn \<le> q" and "q + W < length S"
  shows "word_rotl 1 (hash_at h W mn S q) XOR word_rotl W (h ! unat (S ! q))
           XOR h ! unat (S ! (q + W))
         = hash_at h W mn S (Suc q)"
proof (cases "W = 0")
  case True
  from assms(1) have "Suc q - mn = 1 + (q - mn)" by arith
  with True show ?thesis
    by (simp add: hash_at_def word_rotl_zero word_rotl_word_rotl)
next
  case False
  with window_roll [of W q S h] assms(2) show ?thesis
    by (simp add: hash_at_def)
qed

lemma slide_correct:
  assumes "stop_at + W \<le> length b" and "p \<le> stop_at" and "hsum = H p"
    and "\<forall>k. p \<le> k \<and> k < stop_at \<longrightarrow>
           word_rotl 1 (H k) XOR word_rotl W (h ! unat (b ! k)) XOR h ! unat (b ! (k + W))
             = H (Suc k)"
  shows "\<exists>p' hsum'. slide h msk W b p stop_at hsum = Inr (p', hsum') \<and> p \<le> p' \<and> p' \<le> stop_at \<and>
      hsum' = H p' \<and>
      (\<forall>k. p \<le> k \<and> k < p' \<longrightarrow> H k AND msk \<noteq> 0) \<and>
      (p' < stop_at \<longrightarrow> hsum' AND msk = 0)"
  using assms
proof (induction h msk W b p stop_at hsum rule: slide.induct)
  case (1 h msk W b p stop_at hsum)
  show ?case
  proof (cases "p < stop_at \<and> hsum AND msk \<noteq> 0")
    case False
    then have "slide h msk W b p stop_at hsum = Inr (p, hsum)"
      by (subst slide.simps) auto
    with False "1.prems" show ?thesis by auto
  next
    case True
    then have inb: "p + W < length b" using "1.prems" by arith
    define hsum' where "hsum' = word_rotl 1 hsum XOR word_rotl W (h ! unat (b ! p)) XOR h ! unat (b ! (p + W))"
    have upd: "buzhash_update_impl hsum (b ! p) (b ! (p + W)) W h = Some hsum'"
      by (simp add: buzhash_update_impl_value hsum'_def)
    have roll: "hsum' = H (p + 1)"
      using "1.prems"(3,4) True by (simp add: hsum'_def)
    have step: "slide h msk W b p stop_at hsum = slide h msk W b (p + 1) stop_at hsum'"
      using True inb upd by (subst slide.simps) simp
    from True have le: "p + 1 \<le> stop_at" by simp
    have rest: "\<forall>k. p + 1 \<le> k \<and> k < stop_at \<longrightarrow>
           word_rotl 1 (H k) XOR word_rotl W (h ! unat (b ! k)) XOR h ! unat (b ! (k + W))
             = H (Suc k)"
      using "1.prems"(4) by simp
    from "1.IH" [OF True _ upd \<open>stop_at + W \<le> length b\<close> le roll rest] inb
    obtain p' hs where r: "slide h msk W b (p + 1) stop_at hsum' = Inr (p', hs)"
      and "p + 1 \<le> p'" "p' \<le> stop_at" "hs = H p'"
      and miss: "\<forall>k. p + 1 \<le> k \<and> k < p' \<longrightarrow> H k AND msk \<noteq> 0"
      and "p' < stop_at \<longrightarrow> hs AND msk = 0"
      by auto
    have "\<forall>k. p \<le> k \<and> k < p' \<longrightarrow> H k AND msk \<noteq> 0"
    proof (intro allI impI)
      fix k assume k: "p \<le> k \<and> k < p'"
      show "H k AND msk \<noteq> 0"
      proof (cases "k = p")
        case True
        with \<open>p < stop_at \<and> hsum AND msk \<noteq> 0\<close> "1.prems"(3) show ?thesis by simp
      next
        case False
        with k miss show ?thesis by simp
      qed
    qed
    with step r \<open>p + 1 \<le> p'\<close> \<open>p' \<le> stop_at\<close> \<open>hs = H p'\<close>
      \<open>p' < stop_at \<longrightarrow> hs AND msk = 0\<close>
    show ?thesis by auto
  qed
qed

lemma length_buffered:
  "chunker_inv s \<Longrightarrow> length (buffered s) = position s + remaining s - lastpos s"
  by (auto simp add: chunker_inv_def buffered_def)

lemma window_in_buffer:
  assumes "chunker_inv s" and "lastpos s \<le> p" and "p + W \<le> position s + remaining s"
  shows "take W (drop (p - lastpos s) (buffered s @ rest)) = take W (drop p (buffer s))"
proof -
  from assms have le: "lastpos s \<le> position s" and fit: "position s + remaining s \<le> length (buffer s)"
    by (simp_all add: chunker_inv_def)
  define B where "B = position s + remaining s - lastpos s"
  have inB: "p - lastpos s + W \<le> B" using assms(2,3) by (simp add: B_def)
  have d: "drop (p - lastpos s) (buffered s) = take (B - (p - lastpos s)) (drop p (buffer s))"
    using assms(2) by (simp add: buffered_def B_def drop_take)
  have lenB: "length (buffered s) = B"
    using assms(1) by (simp add: length_buffered B_def)
  have "take W (drop (p - lastpos s) (buffered s @ rest))
      = take W (drop (p - lastpos s) (buffered s))"
    using inB lenB by simp
  also have "\<dots> = take W (take (B - (p - lastpos s)) (drop p (buffer s)))"
    by (simp only: d)
  also have "\<dots> = take W (drop p (buffer s))"
    using inB by (simp add: min_def)
  finally show ?thesis .
qed

lemma buffer_nth:
  assumes "chunker_inv s" and "lastpos s \<le> k" and "k < position s + remaining s"
  shows "(buffered s @ rest) ! (k - lastpos s) = buffer s ! k"
proof -
  from assms(1) have "length (buffered s) = position s + remaining s - lastpos s"
    by (rule length_buffered)
  with assms(2,3) have "k - lastpos s < length (buffered s)" by arith
  then have "(buffered s @ rest) ! (k - lastpos s) = buffered s ! (k - lastpos s)"
    by (simp add: nth_append)
  also have "\<dots> = buffer s ! k"
    using assms(1,2,3) by (simp add: buffered_def chunker_inv_def)
  finally show ?thesis .
qed

lemma cut_loop_well_behaved:
  assumes "chunker_inv s" and "well_behaved (fd s)" and "min_size s \<le> position s - lastpos s"
    and "S = buffered s @ stream_of (fd s)"
    and "window_size s \<le> remaining s"
    and "hsum = hash_at (table s) (window_size s) (min_size s) S (position s - lastpos s)"
    and "remaining s = window_size s \<longrightarrow>
           position s - lastpos s + window_size s = min (length S) (buf_size s)"
    and "eof s \<longrightarrow> fd s = [] \<and> remaining s = window_size s"
  shows "\<exists>s' hsum'. cut_loop s hsum = Some (None, s', hsum') \<and> chunker_inv s' \<and>
      well_behaved (fd s') \<and> buffered s' @ stream_of (fd s') = S \<and>
      (eof s' \<longrightarrow> fd s' = [] \<and> remaining s' \<le> window_size s) \<and>
      same_params s s' \<and>
      bytes_read s' + length (buffered s) = bytes_read s + length (buffered s') \<and>
      window_size s \<le> remaining s' \<and>
      (if remaining s' \<le> window_size s then position s' - lastpos s' + remaining s'
       else position s' - lastpos s')
        = find_cut (table s) (chunk_mask s) (window_size s) (min_size s) S
            (position s - lastpos s) (min (length S) (buf_size s))"
  using assms
proof (induction "2 * size_src (fd s) +
    (if remaining s > window_size s \<and> hsum AND chunk_mask s \<noteq> 0 then 1 else 0 :: nat)"
    arbitrary: s hsum rule: less_induct)
  case less
  note inv = \<open>chunker_inv s\<close> and wb = \<open>well_behaved (fd s)\<close>
    and mnq = \<open>min_size s \<le> position s - lastpos s\<close>
    and S = \<open>S = buffered s @ stream_of (fd s)\<close> and rem = \<open>window_size s \<le> remaining s\<close>
    and hs = \<open>hsum = hash_at (table s) (window_size s) (min_size s) S (position s - lastpos s)\<close>
    and edge = \<open>remaining s = window_size s \<longrightarrow>
           position s - lastpos s + window_size s = min (length S) (buf_size s)\<close>
    and eofs = \<open>eof s \<longrightarrow> fd s = [] \<and> remaining s = window_size s\<close>
  define W where "W = window_size s"
  define h where "h = table s"
  define msk where "msk = chunk_mask s"
  define mn where "mn = min_size s"
  define q where "q = position s - lastpos s"
  define L where "L = min (length S) (buf_size s)"
  from inv have le: "lastpos s \<le> position s" and fit: "position s + remaining s \<le> buf_size s"
    and len: "length (buffer s) = buf_size s"
    by (simp_all add: chunker_inv_def)
  have lb: "length (buffered s) = q + remaining s"
    using inv le by (simp add: length_buffered q_def)
  have "q + remaining s \<le> length S" using lb S by simp
  moreover have "q + remaining s \<le> buf_size s" using fit le by (simp add: q_def)
  ultimately have BL: "q + remaining s \<le> L" by (simp add: L_def)
  show ?case
  proof (cases "remaining s > window_size s \<and> hsum AND chunk_mask s \<noteq> 0")
    case False
    then have out: "cut_loop s hsum = Some (None, s, hsum)"
      by (subst cut_loop.simps) auto
    have "(if remaining s \<le> W then q + remaining s else q) = find_cut h msk W mn S q L"
    proof (cases "remaining s \<le> W")
      case True
      with rem have "remaining s = W" by (simp add: W_def)
      with edge have "q + W = L" by (simp add: W_def q_def L_def)
      then show ?thesis using True \<open>remaining s = W\<close> by (simp add: find_cut_end)
    next
      case big: False
      with False have "hsum AND msk = 0" by (simp add: W_def msk_def)
      moreover have "q + W < L" using big BL by simp
      ultimately show ?thesis using big hs
        by (simp add: find_cut_hit h_def W_def q_def mn_def)
    qed
    with out inv wb S eofs rem show ?thesis
      by (auto simp add: same_params_refl W_def h_def msk_def q_def L_def mn_def)
  next
    case True
    then have big: "W < remaining s" and nz: "hsum AND msk \<noteq> 0"
      by (simp_all add: W_def msk_def)
    from big eofs have neof: "\<not> eof s" by (auto simp add: W_def)
    define stop_at where "stop_at = position s + remaining s - W"
    have sW: "stop_at + W = position s + remaining s" using big by (simp add: stop_at_def)
    define H where "H k = hash_at h W mn S (k - lastpos s)" for k
    have hsb: "hsum = H (position s)"
      using hs by (simp add: H_def h_def W_def mn_def)
    have pst: "position s \<le> stop_at" using big by (simp add: stop_at_def)
    have bnd: "stop_at + W \<le> length (buffer s)" using sW fit len by simp
    have rollH: "\<forall>k. position s \<le> k \<and> k < stop_at \<longrightarrow>
        word_rotl 1 (H k) XOR word_rotl W (h ! unat (buffer s ! k))
          XOR h ! unat (buffer s ! (k + W)) = H (Suc k)"
    proof (intro allI impI)
      fix k assume k: "position s \<le> k \<and> k < stop_at"
      then have lk: "lastpos s \<le> k" using le by simp
      have kW: "k + W < position s + remaining s" using k sW by arith
      then have kk: "k < position s + remaining s" by simp
      from lk have lkW: "lastpos s \<le> k + W" by simp
      have b1: "S ! (k - lastpos s) = buffer s ! k"
        unfolding S using inv lk kk by (rule buffer_nth)
      have "S ! (k + W - lastpos s) = buffer s ! (k + W)"
        unfolding S using inv lkW kW by (rule buffer_nth)
      moreover have "k + W - lastpos s = k - lastpos s + W" using lk by simp
      ultimately have b2: "S ! (k - lastpos s + W) = buffer s ! (k + W)" by simp
      have mnk: "mn \<le> k - lastpos s" using mnq k unfolding mn_def by arith
      have "k - lastpos s + W < q + remaining s" using kW lk le unfolding q_def by arith
      with \<open>q + remaining s \<le> length S\<close> have inS: "k - lastpos s + W < length S" by simp
      have "Suc (k - lastpos s) = Suc k - lastpos s" using lk by simp
      with hash_at_roll [OF mnk inS, of h] b1 b2 show
        "word_rotl 1 (H k) XOR word_rotl W (h ! unat (buffer s ! k))
          XOR h ! unat (buffer s ! (k + W)) = H (Suc k)"
        by (simp add: H_def)
    qed
    from slide_correct [OF bnd pst hsb rollH, where msk = msk]
    obtain p' hsum' where sl: "slide h msk W (buffer s) (position s) stop_at hsum = Inr (p', hsum')"
      and pp: "position s \<le> p'" and ps: "p' \<le> stop_at"
      and hs': "hsum' = H p'"
      and miss: "\<forall>k. position s \<le> k \<and> k < p' \<longrightarrow> H k AND msk \<noteq> 0"
      and hit: "p' < stop_at \<longrightarrow> hsum' AND msk = 0"
      by blast
    define s1 where "s1 = s\<lparr>position := position s + (p' - position s),
        remaining := remaining s - (p' - position s)\<rparr>"
    have pos1: "position s1 = p'" using pp by (simp add: s1_def)
    have rem1: "remaining s1 = position s + remaining s - p'" using pp by (simp add: s1_def)
    have pr1: "position s1 + remaining s1 = position s + remaining s"
      using pp ps sW by (simp add: pos1 rem1)
    have rem1W: "W \<le> remaining s1" using ps sW by (simp add: rem1)
    have inv1: "chunker_inv s1"
      using inv pp pr1 unfolding chunker_inv_def by (simp add: s1_def)
    have buf1: "buffered s1 = buffered s"
      using pr1 by (simp add: buffered_def s1_def)
    have sp1: "same_params s s1" by (simp add: same_params_def s1_def)
    define q1 where "q1 = p' - lastpos s"
    have qq1: "q \<le> q1" using pp le by (simp add: q_def q1_def)
    have q1W: "q1 + W \<le> L" using BL ps sW le pp by (simp add: q1_def q_def)
    have hsS: "hsum' = hash_at h W mn S q1"
      using hs' by (simp add: H_def q1_def)
    have missS: "\<forall>k. q \<le> k \<and> k < q1 \<longrightarrow> hash_at h W mn S k AND msk \<noteq> 0"
    proof (intro allI impI)
      fix k assume k: "q \<le> k \<and> k < q1"
      define k' where "k' = k + lastpos s"
      have "position s \<le> k'" "k' < p'" using k le pp unfolding k'_def q_def q1_def by arith+
      then have "H k' AND msk \<noteq> 0" using miss by simp
      then show "hash_at h W mn S k AND msk \<noteq> 0" by (simp add: H_def k'_def)
    qed
    have mnq1: "mn \<le> q1" using mnq qq1 by (simp add: mn_def q_def)
    have skip: "find_cut h msk W mn S q L = find_cut h msk W mn S q1 L"
      using qq1 q1W missS by (rule find_cut_skip)
    show ?thesis
    proof (cases "remaining s1 \<le> W")
      case small: True
      with rem1W have r1: "remaining s1 = W" by simp
      have eof1: "eof s1 \<longrightarrow> fd s1 = []" using neof by (simp add: s1_def)
      have wb1: "well_behaved (fd s1)" using wb by (simp add: s1_def)
      from fill_well_behaved [OF inv1 wb1 eof1]
      obtain s2 where f: "fill s1 = (None, s2)" and inv2: "chunker_inv s2"
        and wb2: "well_behaved (fd s2)" and eof2: "eof s2 \<longrightarrow> fd s2 = []"
        and str2: "buffered s2 @ stream_of (fd s2) = buffered s1 @ stream_of (fd s1)"
        and rem2: "remaining s1 \<le> remaining s2"
        and same2: "remaining s2 = remaining s1 \<longrightarrow> eof s2 \<or> position s2 + remaining s2 = buf_size s2"
        and grow2: "remaining s1 < remaining s2 \<longrightarrow> size_src (fd s2) < size_src (fd s1) \<and> \<not> eof s2"
        and sz2: "size_src (fd s2) \<le> size_src (fd s1)"
        and br2: "bytes_read s2 = bytes_read s1 + (remaining s2 - remaining s1)"
        by blast
      note ff = fill_fields [OF f]
      have sp2: "same_params s s2"
        using sp1 fill_same_params [OF f] by (rule same_params_trans)
      have small': "remaining s - (p' - position s) \<le> W" using small by (simp add: s1_def)
      have step: "cut_loop s hsum = cut_loop s2 hsum'"
        using True sl f small'
        by (subst cut_loop.simps)
          (simp add: Let_def h_def [symmetric] msk_def [symmetric] W_def [symmetric]
            stop_at_def [symmetric] s1_def [symmetric])
      have S2: "S = buffered s2 @ stream_of (fd s2)"
        using str2 buf1 S by (simp add: s1_def)
      have q2: "position s2 - lastpos s2 = q1"
        using ff pos1 by (simp add: q1_def s1_def)
      have lb2: "length (buffered s2) = q1 + remaining s2"
        using inv2 q2 ff by (simp add: length_buffered)
      have meas: "2 * size_src (fd s2) +
          (if remaining s2 > window_size s2 \<and> hsum' AND chunk_mask s2 \<noteq> 0 then 1 else 0)
          < 2 * size_src (fd s) +
          (if remaining s > window_size s \<and> hsum AND chunk_mask s \<noteq> 0 then 1 else 0)"
      proof (cases "remaining s1 < remaining s2")
        case True
        with grow2 have "size_src (fd s2) < size_src (fd s)" by (simp add: s1_def)
        then show ?thesis by simp
      next
        case False
        with rem2 r1 have "remaining s2 = W" by simp
        moreover have "size_src (fd s2) \<le> size_src (fd s)" using sz2 by (simp add: s1_def)
        ultimately show ?thesis using \<open>remaining s > window_size s \<and> hsum AND chunk_mask s \<noteq> 0\<close> ff
          by (simp add: W_def s1_def)
      qed
      have edge2: "remaining s2 = window_size s2 \<longrightarrow>
          position s2 - lastpos s2 + window_size s2 = min (length S) (buf_size s2)"
      proof
        assume e: "remaining s2 = window_size s2"
        then have e': "remaining s2 = remaining s1" using r1 ff by (simp add: W_def s1_def)
        from inv2 have fit2: "position s2 + remaining s2 \<le> buf_size s2"
          by (simp add: chunker_inv_def)
        from same2 e' consider "eof s2" | "position s2 + remaining s2 = buf_size s2" by blast
        then show "position s2 - lastpos s2 + window_size s2 = min (length S) (buf_size s2)"
        proof cases
          case 1
          with eof2 have "S = buffered s2" using S2 by simp
          then have "length S = q1 + remaining s2" using lb2 by simp
          with fit2 ff e q2 show ?thesis by simp
        next
          case 2
          have "length (buffered s2) \<le> length S" using S2 by simp
          with 2 lb2 ff e q2 show ?thesis by simp
        qed
      qed
      have eofs2: "eof s2 \<longrightarrow> fd s2 = [] \<and> remaining s2 = window_size s2"
        using eof2 grow2 rem2 r1 ff by (auto simp add: W_def s1_def)
      have hs2: "hsum' = hash_at (table s2) (window_size s2) (min_size s2) S (position s2 - lastpos s2)"
        using hsS q2 ff by (simp add: h_def W_def mn_def s1_def)
      have W2: "window_size s2 \<le> remaining s2"
        using ff rem2 r1 by (simp_all add: s1_def W_def)
      have mn2: "min_size s2 \<le> position s2 - lastpos s2"
        using mnq1 q2 ff by (simp add: mn_def s1_def)
      from less.hyps [OF meas inv2 wb2 mn2 S2 W2 hs2 edge2 eofs2]
      obtain s' hsum'' where r: "cut_loop s2 hsum' = Some (None, s', hsum'')"
        and inv': "chunker_inv s'" and wb': "well_behaved (fd s')"
        and S': "buffered s' @ stream_of (fd s') = S"
        and eof': "eof s' \<longrightarrow> fd s' = [] \<and> remaining s' \<le> window_size s2"
        and sp': "same_params s2 s'"
        and br': "bytes_read s' + length (buffered s2) = bytes_read s2 + length (buffered s')"
        and remW': "window_size s2 \<le> remaining s'"
        and cut': "(if remaining s' \<le> window_size s2 then position s' - lastpos s' + remaining s'
             else position s' - lastpos s')
            = find_cut (table s2) (chunk_mask s2) (window_size s2) (min_size s2) S
                (position s2 - lastpos s2) (min (length S) (buf_size s2))"
        by blast
      have a1: "bytes_read s2 = bytes_read s + (remaining s2 - W)"
        using br2 r1 by (simp add: s1_def)
      have a2: "q1 + W = q + remaining s"
        using sW ps pp le r1 rem1 unfolding q1_def q_def by arith
      have a3: "W \<le> remaining s2" using rem2 r1 by simp
      have "bytes_read s' + length (buffered s) = bytes_read s + length (buffered s')"
        using br' a1 a2 a3 unfolding lb lb2 by arith
      moreover have "same_params s s'" using sp2 sp' by (rule same_params_trans)
      ultimately show ?thesis
        using step r inv' wb' S' eof' remW' cut' skip ff q2
        by (simp add: h_def W_def msk_def q_def L_def mn_def s1_def)
    next
      case large: False
      then have "p' < stop_at" using sW pp by (simp add: rem1)
      with hit have z: "hsum' AND msk = 0" by simp
      have large': "\<not> remaining s - (p' - position s) \<le> W" using large by (simp add: s1_def)
      have step: "cut_loop s hsum = cut_loop s1 hsum'"
        using True sl large'
        by (subst cut_loop.simps)
          (simp add: Let_def h_def [symmetric] msk_def [symmetric] W_def [symmetric]
            stop_at_def [symmetric] s1_def [symmetric])
      have meas: "2 * size_src (fd s1) +
          (if remaining s1 > window_size s1 \<and> hsum' AND chunk_mask s1 \<noteq> 0 then 1 else 0)
          < 2 * size_src (fd s) +
          (if remaining s > window_size s \<and> hsum AND chunk_mask s \<noteq> 0 then 1 else 0)"
        using z True by (simp add: s1_def msk_def)
      have wb1: "well_behaved (fd s1)" using wb by (simp add: s1_def)
      have S1: "S = buffered s1 @ stream_of (fd s1)" using S buf1 by (simp add: s1_def)
      have q1': "position s1 - lastpos s1 = q1" using pos1 by (simp add: q1_def s1_def)
      have hs1: "hsum' = hash_at (table s1) (window_size s1) (min_size s1) S (position s1 - lastpos s1)"
        using hsS q1' by (simp add: h_def W_def mn_def s1_def)
      have W1: "window_size s1 \<le> remaining s1"
        using rem1W by (simp_all add: s1_def W_def)
      have mn1: "min_size s1 \<le> position s1 - lastpos s1"
        using mnq1 q1' by (simp add: mn_def s1_def)
      have edge1: "remaining s1 = window_size s1 \<longrightarrow>
          position s1 - lastpos s1 + window_size s1 = min (length S) (buf_size s1)"
        using large by (simp add: s1_def W_def)
      have eofs1: "eof s1 \<longrightarrow> fd s1 = [] \<and> remaining s1 = window_size s1"
        using neof by (simp add: s1_def)
      from less.hyps [OF meas inv1 wb1 mn1 S1 W1 hs1 edge1 eofs1]
      obtain s' hsum'' where r: "cut_loop s1 hsum' = Some (None, s', hsum'')"
        and inv': "chunker_inv s'" and wb': "well_behaved (fd s')"
        and S': "buffered s' @ stream_of (fd s') = S"
        and eof': "eof s' \<longrightarrow> fd s' = [] \<and> remaining s' \<le> window_size s1"
        and sp': "same_params s1 s'"
        and br': "bytes_read s' + length (buffered s1) = bytes_read s1 + length (buffered s')"
        and remW': "window_size s1 \<le> remaining s'"
        and cut': "(if remaining s' \<le> window_size s1 then position s' - lastpos s' + remaining s'
             else position s' - lastpos s')
            = find_cut (table s1) (chunk_mask s1) (window_size s1) (min_size s1) S
                (position s1 - lastpos s1) (min (length S) (buf_size s1))"
        by blast
      have "bytes_read s' + length (buffered s) = bytes_read s + length (buffered s')"
        using br' buf1 by (simp add: s1_def)
      moreover have "same_params s s'" using sp1 sp' by (rule same_params_trans)
      ultimately show ?thesis
        using step r inv' wb' S' eof' remW' cut' skip q1'
        by (simp add: h_def W_def msk_def q_def L_def mn_def s1_def)
    qed
  qed
qed

lemma size_t_sub:
  assumes "m \<le> r" and "r < 2 ^ 64"
  shows "(2 ^ 64 + r - m) mod 2 ^ 64 = r - (m::nat)"
proof -
  from assms(1) have "2 ^ 64 + r - m = 2 ^ 64 + (r - m)" by simp
  moreover have "r - m < 2 ^ 64"
    using diff_le_self assms(2) by (rule le_less_trans)
  ultimately show ?thesis by (simp only: mod_add_self1 mod_less)
qed

lemma process_finished:
  assumes "finished s" and "bytes_read s = bytes_yielded s"
  shows "process s = Some (StopIteration, s)"
  using assms by (simp add: process_def)

lemma process_short_tail:
  assumes nf: "\<not> finished s" and bal: "bytes_read s = bytes_yielded s + remaining s"
    and S: "S = buffered s @ stream_of (fd s)"
    and fl: "fill_loop s = Some (None, s1)" and inv1: "chunker_inv s1"
    and pl1: "position s1 = lastpos s1" and eof1: "eof s1"
    and fd1: "fd s1 = []" and small: "remaining s1 < min_size s + window_size s + 1"
    and str: "buffered s1 @ stream_of (fd s1) = buffered s @ stream_of (fd s)"
    and rem: "remaining s \<le> remaining s1"
    and br: "bytes_read s1 = bytes_read s + (remaining s1 - remaining s)"
    and sp: "same_params s s1"
  shows "(S = [] \<longrightarrow> (\<exists>s'. process s = Some (StopIteration, s') \<and> represents s' [] \<and> same_config s s')) \<and>
    (S \<noteq> [] \<longrightarrow> (\<exists>s'. process s = Some (Yield S, s') \<and> represents s' [] \<and> same_config s s')) \<and>
    length S < min_size s + window_size s + 1"
proof -
  have SB: "S = buffered s1" using S str fd1 by simp
  have lenS: "length S = remaining s1"
    using inv1 pl1 by (simp add: SB length_buffered)
  have buf: "buffered s1 = take (remaining s1) (drop (position s1) (buffer s1))"
    using pl1 by (simp add: buffered_def)
  have by1: "bytes_yielded s1 = bytes_yielded s" using sp by (simp add: same_params_def)
  have br1: "bytes_read s1 = bytes_yielded s + remaining s1" using br bal rem by simp
  have cfg: "same_config s (s1\<lparr>finished := True\<rparr>)"
    "same_config s (s1\<lparr>finished := True, bytes_yielded := bytes_yielded s1 + remaining s1\<rparr>)"
    using sp by (simp_all add: same_config_def same_params_def)
  show ?thesis
  proof (intro conjI impI)
    assume "S = []"
    then have r0: "remaining s1 = 0" using lenS by simp
    then have "process s = Some (StopIteration, s1\<lparr>finished := True\<rparr>)"
      using nf fl eof1 br1 by1 by (simp add: process_def Let_def)
    moreover have "represents (s1\<lparr>finished := True\<rparr>) []"
      using br1 by1 r0 by (simp add: represents_def)
    ultimately show "\<exists>s'. process s = Some (StopIteration, s') \<and> represents s' [] \<and> same_config s s'"
      using cfg by blast
  next
    assume "S \<noteq> []"
    then have r0: "remaining s1 \<noteq> 0" using lenS by (cases S) auto
    then have "process s = Some (Yield S,
        s1\<lparr>finished := True, bytes_yielded := bytes_yielded s1 + remaining s1\<rparr>)"
      using nf fl eof1 by (simp add: process_def Let_def SB buf)
    moreover have "represents
        (s1\<lparr>finished := True, bytes_yielded := bytes_yielded s1 + remaining s1\<rparr>) []"
      using br1 by1 by (simp add: represents_def)
    ultimately show "\<exists>s'. process s = Some (Yield S, s') \<and> represents s' [] \<and> same_config s s'"
      using cfg by blast
  next
    show "length S < min_size s + window_size s + 1" using lenS small by simp
  qed
qed

lemma process_main:
  assumes rdy: "ready s" and S: "S = buffered s @ stream_of (fd s)"
    and fl: "fill_loop s = Some (None, s1)" and inv1: "chunker_inv s1"
    and pl1: "position s1 = lastpos s1" and wb1: "well_behaved (fd s1)"
    and neof1: "\<not> eof s1" and big: "min_size s + window_size s + 1 \<le> remaining s1"
    and str: "buffered s1 @ stream_of (fd s1) = buffered s @ stream_of (fd s)"
    and rem: "remaining s \<le> remaining s1"
    and br: "bytes_read s1 = bytes_read s + (remaining s1 - remaining s)"
    and sp: "same_params s s1"
    and n: "n = find_cut (table s) (chunk_mask s) (window_size s) (min_size s) S (min_size s)
               (min (length S) (buf_size s))"
  shows "\<exists>s'. process s = Some (Yield (take n S), s') \<and> represents s' (drop n S) \<and>
      same_config s s' \<and> min_size s + window_size s + 1 \<le> length S"
proof -
  from rdy have nf: "\<not> finished s" and bal: "bytes_read s = bytes_yielded s + remaining s"
    by (simp_all add: ready_def)
  from sp have par: "chunk_mask s1 = chunk_mask s" "table s1 = table s" "min_size s1 = min_size s"
    "buf_size s1 = buf_size s" "window_size s1 = window_size s" "finished s1 = finished s"
    "bytes_yielded s1 = bytes_yielded s"
    by (simp_all add: same_params_def)
  define W where "W = window_size s"
  define mn where "mn = min_size s"
  have S1: "S = buffered s1 @ stream_of (fd s1)" using S str by simp
  have lb1: "length (buffered s1) = remaining s1"
    using inv1 pl1 by (simp add: length_buffered)
  have lenS: "mn + W + 1 \<le> length S"
    using big lb1 S1 by (simp add: mn_def W_def)
  have br1: "bytes_read s1 = bytes_yielded s + remaining s1" using br bal rem by simp
  from inv1 have "remaining s1 < 2 ^ 32" by (simp add: chunker_inv_def)
  also have "(2::nat) ^ 32 < 2 ^ 64" by simp
  finally have r64: "remaining s1 < 2 ^ 64" .
  from big have mle: "min_size s1 \<le> remaining s1" by (simp add: par)
  from mle r64
  have "(2 ^ 64 + remaining s1 - min_size s1) mod 2 ^ 64 = remaining s1 - min_size s1"
    by (rule size_t_sub)
  then have sub: "(18446744073709551616 + remaining s1 - min_size s1) mod 18446744073709551616
      = remaining s1 - min_size s1"
    by simp
  from inv1 have W32: "window_size s < 2 ^ 32" by (simp add: chunker_inv_def par)
  define s2 where "s2 = s1\<lparr>position := position s1 + min_size s1,
      remaining := remaining s1 - min_size s1\<rparr>"
  have f2: "position s2 = lastpos s1 + mn" "remaining s2 = remaining s1 - mn" "lastpos s2 = lastpos s1"
    "buffer s2 = buffer s1" "fd s2 = fd s1" "eof s2 = eof s1" "table s2 = table s"
    "chunk_mask s2 = chunk_mask s" "window_size s2 = W" "buf_size s2 = buf_size s"
    "bytes_read s2 = bytes_read s1" "bytes_yielded s2 = bytes_yielded s" "finished s2 = finished s"
    "min_size s2 = mn"
    using pl1 par by (simp_all add: s2_def mn_def W_def)
  have pr2: "position s2 + remaining s2 = position s1 + remaining s1"
    using big pl1 by (simp add: f2 mn_def)
  have inv2: "chunker_inv s2"
    using inv1 pr2 unfolding chunker_inv_def by (simp add: f2 par mn_def W_def)
  have buf2: "buffered s2 = buffered s1"
    using pr2 by (simp add: buffered_def f2)
  have S2: "S = buffered s2 @ stream_of (fd s2)" using S1 buf2 by (simp add: f2)
  have q2: "position s2 - lastpos s2 = mn" by (simp add: f2)
  have remW: "W < remaining s2" using big by (simp add: f2 mn_def W_def)
  have inb: "position s2 + W \<le> position s2 + remaining s2" using remW by simp
  have room: "W \<le> length (drop (position s2) (buffer s2))"
    using inv2 inb unfolding chunker_inv_def by (simp del: add_le_cancel_left) arith
  define hsum where "hsum = hash_at (table s) W mn S mn"
  have hash: "buzhash_impl (drop (position s2) (buffer s2)) (window_size s2) (table s2) = Some hsum"
  proof (cases "W = 0")
    case True
    have lp: "lastpos s2 \<le> position s2" by (simp add: f2)
    have pr: "position s2 < position s2 + remaining s2" using remW by simp
    from buffer_nth [OF inv2 lp pr, of "stream_of (fd s2)"] S2 q2
    have "S ! mn = buffer s2 ! position s2" by simp
    moreover from inv2 pr have "position s2 < length (buffer s2)"
      by (simp add: chunker_inv_def)
    then have "drop (position s2) (buffer s2)
        = buffer s2 ! position s2 # drop (Suc (position s2)) (buffer s2)"
      by (simp add: Cons_nth_drop_Suc)
    ultimately show ?thesis using True
      by (simp add: buzhash_impl_zero hsum_def hash_at_def f2 word_rotl_zero)
  next
    case False
    have win: "take W (drop mn S) = take W (drop (position s2) (buffer s2))"
      using window_in_buffer [OF inv2 _ inb, of "stream_of (fd s2)"] q2 S2 by (simp add: f2)
    from False have Wpos: "0 < W" by simp
    from W32 have "W < 2 ^ 32" by (simp add: W_def)
    from buzhash_impl_window [OF Wpos this room, of "table s"] False show ?thesis
      by (simp add: f2 hsum_def hash_at_def win)
  qed
  have hs2: "hsum = hash_at (table s2) (window_size s2) (min_size s2) S (position s2 - lastpos s2)"
    by (simp add: hsum_def f2 del: One_nat_def)
  have mn2: "min_size s2 \<le> position s2 - lastpos s2" by (simp add: f2)
  have rW2: "window_size s2 \<le> remaining s2" using remW by (simp add: f2)
  from cut_loop_well_behaved [OF inv2 _ mn2 S2 rW2 hs2] wb1 remW neof1
  obtain s3 hsum' where cl: "cut_loop s2 hsum = Some (None, s3, hsum')"
    and inv3: "chunker_inv s3" and wb3: "well_behaved (fd s3)"
    and S3: "buffered s3 @ stream_of (fd s3) = S"
    and eof3: "eof s3 \<longrightarrow> fd s3 = [] \<and> remaining s3 \<le> W"
    and sp3: "same_params s2 s3"
    and br3: "bytes_read s3 + length (buffered s2) = bytes_read s2 + length (buffered s3)"
    and remW3: "W \<le> remaining s3"
    and cut: "(if remaining s3 \<le> W then position s3 - lastpos s3 + remaining s3
         else position s3 - lastpos s3) = n"
    by (auto simp add: f2 W_def [symmetric] n q2 mn_def)
  from sp3 have par3: "chunk_mask s3 = chunk_mask s" "table s3 = table s" "min_size s3 = mn"
    "buf_size s3 = buf_size s" "window_size s3 = W" "finished s3 = finished s"
    "bytes_yielded s3 = bytes_yielded s"
    by (simp_all add: same_params_def f2)
  from inv3 have le3: "lastpos s3 \<le> position s3" and fit3: "position s3 + remaining s3 \<le> buf_size s3"
    and len3: "length (buffer s3) = buf_size s3"
    by (simp_all add: chunker_inv_def)
  define s4 where "s4 = (if remaining s3 \<le> window_size s3
      then s3\<lparr>position := position s3 + remaining s3, remaining := 0\<rparr> else s3)"
  define s6 where "s6 = s4\<lparr>lastpos := position s4,
      bytes_yielded := bytes_yielded s4 + (position s4 - lastpos s4)\<rparr>"
  have p4: "position s4 - lastpos s4 = n" "lastpos s4 = lastpos s3" "buffer s4 = buffer s3"
    "position s4 + remaining s4 = position s3 + remaining s3" "fd s4 = fd s3"
    using cut le3 by (auto simp add: s4_def par3)
  have lb3: "length (buffered s3) = position s3 + remaining s3 - lastpos s3"
    using inv3 by (rule length_buffered)
  have nle: "n \<le> length (buffered s3)"
    using cut le3 unfolding lb3 by (auto split: if_splits)
  have pos4: "position s4 = lastpos s3 + n" using p4(1,2) cut le3 by (auto simp add: s4_def par3 split: if_splits)
  have p4': "position s4 - lastpos s3 = n" using p4(1,2) by simp
  have proc: "process s = Some (Yield (take n (drop (lastpos s3) (buffer s3))), s6)"
    using nf fl neof1 hash cl
    by (simp add: process_def Let_def sub s2_def [symmetric] s4_def [symmetric] s6_def p4 p4')
  have "take n (drop (lastpos s3) (buffer s3)) = take n (buffered s3)"
    using nle unfolding lb3 by (simp add: buffered_def min_def)
  also have "\<dots> = take n S" using nle S3 [symmetric] by simp
  finally have payload: "take n (drop (lastpos s3) (buffer s3)) = take n S" .
  have f6: "lastpos s6 = position s4" "position s6 = position s4" "remaining s6 = remaining s4"
    "buffer s6 = buffer s3" "fd s6 = fd s3" "eof s6 = eof s3" "finished s6 = finished s"
    "window_size s6 = W" "min_size s6 = mn" "buf_size s6 = buf_size s" "table s6 = table s"
    "chunk_mask s6 = chunk_mask s" "bytes_read s6 = bytes_read s3"
    "bytes_yielded s6 = bytes_yielded s + n"
    using p4 by (auto simp add: s6_def s4_def par3)
  have rem6: "n + remaining s6 = length (buffered s3)"
    using p4(4) pos4 le3 unfolding lb3 f6 by arith
  have buf6: "buffered s6 = drop n (buffered s3)"
  proof -
    have "buffered s6 = take (remaining s6) (drop (lastpos s3 + n) (buffer s3))"
      by (simp add: buffered_def f6 pos4)
    also have "\<dots> = drop n (take (n + remaining s6) (drop (lastpos s3) (buffer s3)))"
      by (simp add: drop_take add.commute)
    also have "\<dots> = drop n (buffered s3)"
      using rem6 unfolding lb3 by (simp add: buffered_def)
    finally show ?thesis .
  qed
  have S6: "drop n S = buffered s6 @ stream_of (fd s6)"
    using nle S3 [symmetric] by (simp add: buf6 f6)
  have inv6: "chunker_inv s6"
    using inv3 p4(4) fit3 len3 pos4 unfolding chunker_inv_def
    by (simp add: f6 par3)
  have eof6: "eof s6 \<longrightarrow> fd s6 = [] \<and> remaining s6 = 0"
    using eof3 by (auto simp add: f6 s4_def par3)
  have l2: "length (buffered s2) = remaining s1" using buf2 lb1 by simp
  have "bytes_read s3 = bytes_yielded s + length (buffered s3)"
    using br3 br1 unfolding l2 f2 by simp
  then have bal6: "bytes_read s6 = bytes_yielded s6 + remaining s6"
    using rem6 by (simp add: f6)
  have "ready s6"
    using inv6 eof6 bal6 wb3 nf unfolding ready_def
    by (simp add: f6 W_def)
  then have "represents s6 (drop n S)" using S6 by (simp add: represents_def)
  moreover have "same_config s s6" by (simp add: same_config_def f6 W_def mn_def)
  ultimately show ?thesis using proc payload lenS by (auto simp add: mn_def W_def)
qed

lemma next_cut_bounds:
  assumes "0 < mn" and "mn + W + 1 \<le> mx" and "S \<noteq> []"
  shows "0 < next_cut h msk W mn mx S" and "next_cut h msk W mn mx S \<le> length S"
    and "next_cut h msk W mn mx S \<le> mx"
    and "next_cut h msk W mn mx S < mn \<Longrightarrow> next_cut h msk W mn mx S = length S"
proof -
  show "0 < next_cut h msk W mn mx S"
  proof (cases "length S < mn + W + 1")
    case True
    with assms(3) show ?thesis by (simp add: next_cut_def)
  next
    case False
    then have "mn \<le> min (length S) mx" using assms(2) by simp
    from find_cut_bounds [OF this, of h msk W mn S] assms(1) False
    show ?thesis by (simp add: next_cut_def)
  qed
  show "next_cut h msk W mn mx S \<le> length S"
  proof (cases "length S < mn + W + 1")
    case True
    then show ?thesis by (simp add: next_cut_def)
  next
    case False
    then have "mn \<le> min (length S) mx" using assms(2) by simp
    from find_cut_bounds [OF this, of h msk W mn S] False
    show ?thesis by (simp add: next_cut_def)
  qed
  show "next_cut h msk W mn mx S \<le> mx"
  proof (cases "length S < mn + W + 1")
    case True
    then show ?thesis using assms(2) by (simp add: next_cut_def)
  next
    case False
    then have "mn \<le> min (length S) mx" using assms(2) by simp
    from find_cut_bounds [OF this, of h msk W mn S] False
    show ?thesis by (simp add: next_cut_def)
  qed
  show "next_cut h msk W mn mx S = length S" if "next_cut h msk W mn mx S < mn"
  proof (cases "length S < mn + W + 1")
    case True
    then show ?thesis by (simp add: next_cut_def)
  next
    case False
    then have "mn \<le> min (length S) mx" using assms(2) by simp
    from find_cut_bounds [OF this, of h msk W mn S] False that
    show ?thesis by (simp add: next_cut_def)
  qed
qed

lemma process_represents:
  assumes rep: "represents s S"
  defines "n \<equiv> next_cut (table s) (chunk_mask s) (window_size s) (min_size s) (buf_size s) S"
  shows "(S = [] \<longrightarrow> (\<exists>s'. process s = Some (StopIteration, s') \<and> represents s' [] \<and> same_config s s'))
    \<and> (S \<noteq> [] \<longrightarrow> (\<exists>s'. process s = Some (Yield (take n S), s') \<and> represents s' (drop n S)
          \<and> same_config s s'))"
proof (cases "finished s")
  case True
  with rep have "bytes_read s = bytes_yielded s" and "S = []"
    by (auto simp add: represents_def ready_def)
  with True rep show ?thesis
    by (auto simp add: process_finished same_config_def)
next
  case False
  with rep have rdy: "ready s" and S: "S = buffered s @ stream_of (fd s)"
    by (auto simp add: represents_def)
  from rdy have inv: "chunker_inv s" and pl: "position s = lastpos s" and wb: "well_behaved (fd s)"
    and eofs: "eof s \<longrightarrow> fd s = [] \<and> remaining s = 0"
    by (simp_all add: ready_def)
  from eofs have eofs': "eof s \<longrightarrow> fd s = [] \<and> remaining s < min_size s + window_size s + 1"
    by auto
  from fill_loop_well_behaved [OF inv pl wb eofs']
  obtain s1 where fl: "fill_loop s = Some (None, s1)" and inv1: "chunker_inv s1"
    and pl1: "position s1 = lastpos s1" and wb1: "well_behaved (fd s1)"
    and eof1: "eof s1 \<longrightarrow> fd s1 = [] \<and> remaining s1 < min_size s + window_size s + 1"
    and neof1: "\<not> eof s1 \<longrightarrow> min_size s + window_size s + 1 \<le> remaining s1"
    and str: "buffered s1 @ stream_of (fd s1) = buffered s @ stream_of (fd s)"
    and rem: "remaining s \<le> remaining s1"
    and br: "bytes_read s1 = bytes_read s + (remaining s1 - remaining s)"
    and sp: "same_params s s1"
    by blast
  show ?thesis
  proof (cases "eof s1")
    case True
    with eof1 have fd1: "fd s1 = []" and small: "remaining s1 < min_size s + window_size s + 1"
      by simp_all
    from rdy have nf: "\<not> finished s" and bal: "bytes_read s = bytes_yielded s + remaining s"
      by (simp_all add: ready_def)
    from process_short_tail [OF nf bal S fl inv1 pl1 True fd1 small str rem br sp]
    have a: "S = [] \<longrightarrow> (\<exists>s'. process s = Some (StopIteration, s') \<and> represents s' [] \<and> same_config s s')"
      and b: "S \<noteq> [] \<longrightarrow> (\<exists>s'. process s = Some (Yield S, s') \<and> represents s' [] \<and> same_config s s')"
      and c: "length S < min_size s + window_size s + 1"
      by blast+
    from c have "n = length S" by (simp add: n_def next_cut_def)
    with a b show ?thesis by simp
  next
    case False
    with neof1 have big: "min_size s + window_size s + 1 \<le> remaining s1" by simp
    define m where "m = find_cut (table s) (chunk_mask s) (window_size s) (min_size s) S
               (min_size s) (min (length S) (buf_size s))"
    from process_main [OF rdy S fl inv1 pl1 wb1 False big str rem br sp m_def]
    obtain s' where p: "process s = Some (Yield (take m S), s')" and r: "represents s' (drop m S)"
      and c: "same_config s s'" and l: "min_size s + window_size s + 1 \<le> length S"
      by blast
    from l have "n = m" by (simp add: n_def next_cut_def m_def)
    moreover from l have "S \<noteq> []" by auto
    ultimately show ?thesis using p r c by auto
  qed
qed

lemma chunker_drain_represents:
  assumes "represents s S" and "0 < min_size s" and "min_size s + window_size s + 1 \<le> buf_size s"
  shows "\<exists>s'. chunker_drain Z s acc =
      Some (acc @ map (classify Z)
              (cut_stream (table s) (chunk_mask s) (window_size s) (min_size s) (buf_size s) S),
            None, s')"
  using assms
proof (induction "length S" arbitrary: s S acc rule: less_induct)
  case less
  define n where "n = next_cut (table s) (chunk_mask s) (window_size s) (min_size s) (buf_size s) S"
  note pr = process_represents [OF \<open>represents s S\<close>, folded n_def]
  show ?case
  proof (cases "S = []")
    case True
    with pr obtain s' where "process s = Some (StopIteration, s')" by blast
    then have "chunker_drain Z s acc = Some (acc, None, s')"
      by (subst chunker_drain.simps) (simp add: chunker_next_def)
    moreover have "cut_stream (table s) (chunk_mask s) (window_size s) (min_size s) (buf_size s) S = []"
      using True by (subst cut_stream.simps) simp
    ultimately show ?thesis by simp
  next
    case False
    with pr obtain s' where p: "process s = Some (Yield (take n S), s')"
      and r: "represents s' (drop n S)" and c: "same_config s s'"
      by blast
    from next_cut_bounds(1,2) [OF less.prems(2) less.prems(3) False, of "table s" "chunk_mask s"]
    have n0: "0 < n" and nle: "n \<le> length S" by (simp_all add: n_def)
    from c have cfg: "table s' = table s" "chunk_mask s' = chunk_mask s" "window_size s' = window_size s"
      "min_size s' = min_size s" "buf_size s' = buf_size s"
      by (simp_all add: same_config_def)
    have shorter: "length (drop n S) < length S" using n0 False by (cases S) auto
    from less.hyps [OF shorter r, of "acc @ [classify Z (take n S)]"] less.prems(2,3) cfg
    obtain s'' where d: "chunker_drain Z s' (acc @ [classify Z (take n S)]) =
        Some ((acc @ [classify Z (take n S)]) @ map (classify Z)
          (cut_stream (table s) (chunk_mask s) (window_size s) (min_size s) (buf_size s) (drop n S)),
          None, s'')"
      by auto
    have "chunker_drain Z s acc = chunker_drain Z s' (acc @ [classify Z (take n S)])"
      using p by (subst chunker_drain.simps) (simp add: chunker_next_def)
    moreover have "cut_stream (table s) (chunk_mask s) (window_size s) (min_size s) (buf_size s) S
        = take n S # cut_stream (table s) (chunk_mask s) (window_size s) (min_size s) (buf_size s) (drop n S)"
      using False n0 by (subst cut_stream.simps) (simp add: n_def)
    ultimately show ?thesis using d by simp
  qed
qed

lemma sint_shl1: "n < 31 \<Longrightarrow> sint (push_bit n (1 :: 32 word)) = 2 ^ n"
proof -
  assume n: "n < 31"
  then have "(2::int) ^ n < 2 ^ 31" by (intro power_strict_increasing) simp_all
  moreover have "- (2 ^ 31) \<le> (2::int) ^ n"
    by (rule order_trans [of _ 0]) simp_all
  ultimately have st: "signed_take_bit 31 ((2::int) ^ n) = 2 ^ n"
    by (simp add: signed_take_bit_int_eq_self)
  have "sint (push_bit n (1 :: 32 word))
      = signed_take_bit (LENGTH(32) - Suc 0) (push_bit n (sint (1 :: 32 word)))"
    by (rule signed_push_bit_eq)
  also have "\<dots> = signed_take_bit 31 ((2::int) ^ n)" by (simp add: push_bit_eq_mult)
  finally show ?thesis by (simp only: st)
qed

lemma int_shl1_power:
  assumes "0 \<le> e" and "e \<le> 30"
  shows "int_shl1 e = 2 ^ nat e"
proof -
  from assms have m: "e mod 32 = e" by simp
  from assms have n: "nat e < 31" by simp
  from sint_shl1 [OF n] show ?thesis by (simp add: int_shl1_def m)
qed

lemma int_shl1_nonzero: "int_shl1 e \<noteq> 0"
proof -
  have "nat (e mod 32) < 32" by simp
  then have "(2 :: 32 word) ^ nat (e mod 32) \<noteq> 0" by (simp add: exp_eq_zero_iff)
  then have "push_bit (nat (e mod 32)) (1 :: 32 word) \<noteq> 0" by (simp add: push_bit_eq_mult)
  then show ?thesis by (simp add: int_shl1_def signed_eq_0_iff)
qed

lemma int_shl1_range: "- (2 ^ 31) \<le> int_shl1 e \<and> int_shl1 e < 2 ^ 31"
  using sint_ge [of "push_bit (nat (e mod 32)) (1 :: 32 word)"]
    sint_lt [of "push_bit (nat (e mod 32)) (1 :: 32 word)"]
  by (simp add: int_shl1_def)

lemma Chunker_cinit_fields:
  assumes "Chunker_cinit Z mem seed min_exp max_exp mask_bits W = Inr c"
  shows "int (min_size c) = int_shl1 min_exp" "int (buf_size c) = int_shl1 max_exp"
    "window_size c = nat (W mod 2 ^ 64)"
    "buf_size c \<le> Z" "W + int (min_size c) + 1 \<le> int (buf_size c)"
    "length (buffer c) = buf_size c"
    "table c = buzhash_init_table (word_of_int seed AND 0xffffffff)"
    "chunk_mask c = word_of_int (int_shl1 mask_bits - 1)"
    "buf_size c < 2 ^ 32"
proof -
  from assms have ok: "int_shl1 max_exp \<le> int Z" "W + int_shl1 min_exp + 1 \<le> int_shl1 max_exp"
    "0 \<le> int_shl1 min_exp" "0 \<le> int_shl1 max_exp"
    by (auto simp add: Chunker_cinit_def Let_def split: if_splits)
  from assms have c: "min_size c = nat (int_shl1 min_exp)" "buf_size c = nat (int_shl1 max_exp)"
    "window_size c = nat (W mod 2 ^ 64)"
    "buffer c = take (nat (int_shl1 max_exp)) (mem @ replicate (nat (int_shl1 max_exp)) 0)"
    "table c = buzhash_init_table (word_of_int seed AND 0xffffffff)"
    "chunk_mask c = word_of_int (int_shl1 mask_bits - 1)"
    by (auto simp add: Chunker_cinit_def Let_def split: if_splits)
  from c ok show "int (min_size c) = int_shl1 min_exp" "int (buf_size c) = int_shl1 max_exp"
    by simp_all
  from c show "window_size c = nat (W mod 2 ^ 64)"
    "table c = buzhash_init_table (word_of_int seed AND 0xffffffff)"
    "chunk_mask c = word_of_int (int_shl1 mask_bits - 1)"
    by simp_all
  from c ok show "buf_size c \<le> Z" by simp
  from c ok show "W + int (min_size c) + 1 \<le> int (buf_size c)" by simp
  from c show "length (buffer c) = buf_size c" by simp
  from int_shl1_range [of max_exp] have "int_shl1 max_exp < 2 ^ 32" by simp
  with c ok show "buf_size c < 2 ^ 32" by simp
qed

lemma chunkify_fields:
  "min_size (chunkify c src) = min_size c" "buf_size (chunkify c src) = buf_size c"
  "window_size (chunkify c src) = window_size c" "table (chunkify c src) = table c"
  "chunk_mask (chunkify c src) = chunk_mask c" "buffer (chunkify c src) = buffer c"
  "fd (chunkify c src) = src" "\<not> finished (chunkify c src)" "\<not> eof (chunkify c src)"
  "remaining (chunkify c src) = 0" "position (chunkify c src) = 0" "lastpos (chunkify c src) = 0"
  "bytes_read (chunkify c src) = 0" "bytes_yielded (chunkify c src) = 0"
  by (simp_all add: chunkify_def)

lemma chunkify_inv:
  assumes "Chunker_cinit Z mem seed min_exp max_exp mask_bits W = Inr c" and "0 \<le> W"
  shows "chunker_inv (chunkify c src)" and "window_size c = nat W" and "0 < min_size c"
    and "min_size c + window_size c + 1 \<le> buf_size c"
proof -
  note cf = Chunker_cinit_fields [OF assms(1)]
  from cf(5) assms(2) have "W < int (buf_size c)" by simp
  also from cf(9) have "int (buf_size c) < 2 ^ 32" by simp
  also have "(2::int) ^ 32 < 2 ^ 64" by simp
  finally have "W mod 2 ^ 64 = W" using assms(2) by simp
  with cf(3) show W: "window_size c = nat W" by simp
  note int_shl1_nonzero [of min_exp]
  with cf(1) show mn: "0 < min_size c" by (cases "min_size c") simp_all
  from cf(5) W assms(2) show fit: "min_size c + window_size c + 1 \<le> buf_size c" by simp
  from mn fit cf(6,9) show "chunker_inv (chunkify c src)"
    by (simp add: chunker_inv_def chunkify_fields)
qed

lemma buffered_chunkify: "buffered (chunkify c src) = []"
  by (simp add: buffered_def chunkify_fields)

lemma chunkify_represents:
  assumes "Chunker_cinit Z mem seed min_exp max_exp mask_bits W = Inr c"
    and "0 \<le> W" and "well_behaved src"
  shows "represents (chunkify c src) (stream_of src)"
  using chunkify_inv(1) [OF assms(1,2)] assms(3)
  by (simp add: represents_def ready_def chunkify_fields buffered_chunkify)

lemma chunker_drain_total:
  assumes ci: "Chunker_cinit Z mem seed min_exp max_exp mask_bits W = Inr c" and W: "0 \<le> W"
    and wb: "well_behaved src"
  shows "\<exists>s'. chunker_drain Z (chunkify c src) [] =
      Some (map (classify Z)
              (cut_stream (table c) (chunk_mask c) (window_size c) (min_size c) (buf_size c)
                 (stream_of src)),
            None, s')"
proof -
  have r: "represents (chunkify c src) (stream_of src)"
    using ci W wb by (rule chunkify_represents)
  from chunker_drain_represents [OF r, of Z "[]"] chunkify_inv(3,4) [OF ci W]
  show ?thesis by (simp add: chunkify_fields)
qed

lemma cut_stream_props:
  assumes "0 < mn" and "mn + W + 1 \<le> mx"
  shows "concat (cut_stream h msk W mn mx S) = S \<and>
    (\<forall>d \<in> set (cut_stream h msk W mn mx S). d \<noteq> [] \<and> length d \<le> mx) \<and>
    (\<forall>d \<in> set (butlast (cut_stream h msk W mn mx S)). mn \<le> length d)"
proof (induction "length S" arbitrary: S rule: less_induct)
  case less
  show ?case
  proof (cases "S = []")
    case True
    then have "cut_stream h msk W mn mx S = []" by (subst cut_stream.simps) simp
    with True show ?thesis by simp
  next
    case False
    define n where "n = next_cut h msk W mn mx S"
    from next_cut_bounds [OF assms False, of h msk]
    have n0: "0 < n" and nle: "n \<le> length S" and nmx: "n \<le> mx"
      and nmn: "n < mn \<Longrightarrow> n = length S"
      by (simp_all add: n_def)
    have cs: "cut_stream h msk W mn mx S = take n S # cut_stream h msk W mn mx (drop n S)"
      using False n0 by (subst cut_stream.simps) (simp add: n_def)
    have shorter: "length (drop n S) < length S" using n0 False by (cases S) auto
    note IH = less.hyps [OF shorter]
    have tk: "take n S \<noteq> []" "length (take n S) = n" using n0 nle False by auto
    have rest_empty: "cut_stream h msk W mn mx (drop n S) = []" if "n < mn"
    proof -
      from nmn [OF that] have "drop n S = []" by simp
      then show ?thesis by (subst cut_stream.simps) simp
    qed
    have "\<forall>d \<in> set (butlast (take n S # cut_stream h msk W mn mx (drop n S))). mn \<le> length d"
    proof (cases "n < mn")
      case True
      then show ?thesis by (simp add: rest_empty)
    next
      case False
      with IH tk show ?thesis by (auto split: if_splits)
    qed
    with IH tk nmx show ?thesis unfolding cs by auto
  qed
qed

lemma csize_classify: "csize (classify Z d) = length d"
  by (simp add: classify_def Chunk_def)

lemma startswith_zeros: "startswith (zeros Z) d \<longleftrightarrow> length d \<le> Z \<and> set d \<subseteq> {0}"
proof
  assume "startswith (zeros Z) d"
  then have d: "replicate (min (length d) Z) 0 = d" by (simp add: startswith_def zeros_def)
  then have "length (replicate (min (length d) Z) (0::u8)) = length d" by (simp only:)
  then have l: "length d \<le> Z" by simp
  have "set (replicate (min (length d) Z) (0::u8)) \<subseteq> {0}" by auto
  with d have "set d \<subseteq> {0}" by (simp only:)
  with l show "length d \<le> Z \<and> set d \<subseteq> {0}" by simp
next
  assume a: "length d \<le> Z \<and> set d \<subseteq> {0}"
  then have "\<forall>y \<in> set d. y = 0" by auto
  then have "replicate (length d) 0 = d" by (rule replicate_length_same)
  with a show "startswith (zeros Z) d"
    by (simp add: startswith_def zeros_def min_def)
qed

lemma Chunker_cinit_succeeds:
  assumes "fits_int seed" and "fits_int mask_bits" and "fits_int W"
    and "0 \<le> min_exp" and "min_exp \<le> 30" and "0 \<le> max_exp" and "max_exp \<le> 30"
    and "W + 2 ^ nat min_exp + 1 \<le> 2 ^ nat max_exp" and "2 ^ nat max_exp \<le> int Z"
  shows "\<exists>c. Chunker_cinit Z mem seed min_exp max_exp mask_bits W = Inr c"
proof -
  from assms(4-7) have "fits_int min_exp" "fits_int max_exp" by (simp_all add: fits_int_def)
  with assms show ?thesis
    by (simp add: Chunker_cinit_def Let_def int_shl1_power)
qed

text \<open>
  The cuts of the bytes 1 to 20 for the configuration of \<^verbatim>\<open>Chunker(1, 1, 4, 1, W)\<close>, with the
  window sizes 0 and 2.
\<close>

lemma cut_stream_example_window_0:
  "map length (cut_stream (buzhash_init_table 1) 1 0 2 16
      [1, 2, 3, 4, 5, 6, 7, 8, 9, 10, 11, 12, 13, 14, 15, 16, 17, 18, 19, 20]) = [3, 2, 3, 4, 4, 4]"
  by code_simp

lemma cut_stream_example_window_2:
  "map length (cut_stream (buzhash_init_table 1) 1 2 2 16
      [1, 2, 3, 4, 5, 6, 7, 8, 9, 10, 11, 12, 13, 14, 15, 16, 17, 18, 19, 20])
     = [2, 2, 3, 4, 2, 2, 2, 3]"
  by code_simp

lemma Chunker_cinit_example:
  assumes "Chunker_cinit 16 [] 1 1 4 1 W = Inr c" and "0 \<le> W"
  shows "table c = buzhash_init_table 1" and "chunk_mask c = 1" and "min_size c = 2"
    and "buf_size c = 16" and "window_size c = nat W"
proof -
  note cf = Chunker_cinit_fields [OF assms(1)]
  have p: "int_shl1 1 = 2" "int_shl1 4 = 16" by (simp_all add: int_shl1_power)
  from cf(7) show "table c = buzhash_init_table 1" by simp
  from cf(8) p show "chunk_mask c = 1" by simp
  from cf(1) p show "min_size c = 2" by simp
  from cf(2) p show "buf_size c = 16" by simp
  from chunkify_inv(2) [OF assms] show "window_size c = nat W" .
qed

section \<open>Claims about the content-defined chunker\<close>

text \<open>
  C2. For a fixed configuration of the content-defined chunker (seed, \<open>min_exp\<close>, \<open>max_exp\<close>,
  \<open>mask_bits\<close>, window size \<open>W \<ge> 0\<close>) that the constructor accepts and fixed input bytes, two
  runs over sources that deliver the same bytes in differently sized \<^verbatim>\<open>read()\<close> results both
  end without an exception and emit the same chunks, hence the same boundaries. A source is
  well-behaved when no read fails and a read returns no byte only at the end of the input.
  (A negative window size passes the assertion of the constructor too. It is stored as a
  \<^verbatim>\<open>size_t\<close> just below \<open>2^64\<close>, and \<^verbatim>\<open>_buzhash\<close> then reads far outside the buffer.)
\<close>

theorem cut_points_independent_of_read_sizes:
  assumes "Chunker_cinit Z mem seed min_exp max_exp mask_bits W = Inr c" and "0 \<le> W"
    and "well_behaved src1" and "well_behaved src2"
    and "stream_of src1 = stream_of src2"
  shows "\<exists>cs s1 s2.
      chunker_drain Z (chunkify c src1) [] = Some (cs, None, s1) \<and>
      chunker_drain Z (chunkify c src2) [] = Some (cs, None, s2)"
  using chunker_drain_total [OF assms(1,2,3)] chunker_drain_total [OF assms(1,2,4)] assms(5)
  by auto

theorem cut_points_independent_of_read_sizes_witness:
  "\<exists>c. Chunker_cinit 16 [] 1 1 4 1 0 = Inr c \<and> (0::int) \<le> 0 \<and>
     well_behaved [Bytes [1, 2, 3, 4, 5, 6, 7, 8, 9, 10, 11, 12, 13, 14, 15, 16, 17, 18, 19, 20]] \<and>
     well_behaved [Bytes [1, 2, 3, 4, 5, 6, 7], Bytes [8, 9, 10, 11, 12, 13, 14],
                   Bytes [15, 16, 17, 18, 19, 20]] \<and>
     stream_of [Bytes [1, 2, 3, 4, 5, 6, 7, 8, 9, 10, 11, 12, 13, 14, 15, 16, 17, 18, 19, 20]] =
     stream_of [Bytes [1, 2, 3, 4, 5, 6, 7], Bytes [8, 9, 10, 11, 12, 13, 14],
                Bytes [15, 16, 17, 18, 19, 20]] \<and>
     (\<exists>cs s1 s2.
        chunker_drain 16 (chunkify c
          [Bytes [1, 2, 3, 4, 5, 6, 7, 8, 9, 10, 11, 12, 13, 14, 15, 16, 17, 18, 19, 20]]) []
          = Some (cs, None, s1) \<and>
        chunker_drain 16 (chunkify c
          [Bytes [1, 2, 3, 4, 5, 6, 7], Bytes [8, 9, 10, 11, 12, 13, 14],
           Bytes [15, 16, 17, 18, 19, 20]]) []
          = Some (cs, None, s2) \<and>
        map csize cs = [3, 2, 3, 4, 4, 4])"
proof -
  obtain c where c: "Chunker_cinit 16 [] 1 1 4 1 0 = Inr c"
    using Chunker_cinit_succeeds [of 1 1 0 1 4 16 "[]"] by (auto simp add: fits_int_def)
  have a: "well_behaved [Bytes [1, 2, 3, 4, 5, 6, 7, 8, 9, 10, 11, 12, 13, 14, 15, 16, 17, 18, 19, 20]]"
    by simp
  have b: "well_behaved [Bytes [1, 2, 3, 4, 5, 6, 7], Bytes [8, 9, 10, 11, 12, 13, 14],
                   Bytes [15, 16, 17, 18, 19, 20]]"
    by simp
  have e: "stream_of [Bytes [1, 2, 3, 4, 5, 6, 7, 8, 9, 10, 11, 12, 13, 14, 15, 16, 17, 18, 19, 20]] =
     stream_of [Bytes [1, 2, 3, 4, 5, 6, 7], Bytes [8, 9, 10, 11, 12, 13, 14],
                Bytes [15, 16, 17, 18, 19, 20]]"
    by simp
  have z: "(0::int) \<le> 0" by simp
  from cut_points_independent_of_read_sizes [OF c z a b e]
  obtain cs s1 s2 where d1: "chunker_drain 16 (chunkify c
          [Bytes [1, 2, 3, 4, 5, 6, 7, 8, 9, 10, 11, 12, 13, 14, 15, 16, 17, 18, 19, 20]]) []
          = Some (cs, None, s1)"
    and d2: "chunker_drain 16 (chunkify c
          [Bytes [1, 2, 3, 4, 5, 6, 7], Bytes [8, 9, 10, 11, 12, 13, 14],
           Bytes [15, 16, 17, 18, 19, 20]]) []
          = Some (cs, None, s2)"
    by blast
  from chunker_drain_total [OF c z a] d1 Chunker_cinit_example [OF c z]
  have "cs = map (classify 16) (cut_stream (buzhash_init_table 1) 1 0 2 16
      [1, 2, 3, 4, 5, 6, 7, 8, 9, 10, 11, 12, 13, 14, 15, 16, 17, 18, 19, 20])"
    by simp
  then have "map csize cs = [3, 2, 3, 4, 4, 4]"
    by (simp only: map_map comp_def csize_classify cut_stream_example_window_0)
  with d1 d2 have "\<exists>cs s1 s2.
        chunker_drain 16 (chunkify c
          [Bytes [1, 2, 3, 4, 5, 6, 7, 8, 9, 10, 11, 12, 13, 14, 15, 16, 17, 18, 19, 20]]) []
          = Some (cs, None, s1) \<and>
        chunker_drain 16 (chunkify c
          [Bytes [1, 2, 3, 4, 5, 6, 7], Bytes [8, 9, 10, 11, 12, 13, 14],
           Bytes [15, 16, 17, 18, 19, 20]]) []
          = Some (cs, None, s2) \<and>
        map csize cs = [3, 2, 3, 4, 4, 4]"
    by (intro exI [of _ cs] exI [of _ s1] exI [of _ s2] conjI)
  with c a b e z show ?thesis by (intro exI [of _ c] conjI)
qed

text \<open>
  C3. For every configuration with a window size \<open>W \<ge> 0\<close> that the constructor accepts, which
  includes its precondition \<open>W + min_size + 1 \<le> max_size\<close>, and every well-behaved source, the
  run ends without an exception, every chunk that the content-defined chunker emits has a size
  of at most \<open>max_size\<close>, and every chunk but the last one of the stream a size of at least
  \<open>min_size\<close>. Here \<open>min_size\<close> and \<open>max_size\<close> are the values that the constructor computes as
  \<^verbatim>\<open>1 << chunk_min_exp\<close> and \<^verbatim>\<open>1 << chunk_max_exp\<close> and stores in \<^verbatim>\<open>self.min_size\<close> and
  \<^verbatim>\<open>self.buf_size\<close>.
\<close>

theorem chunk_sizes_between_min_and_max:
  assumes "Chunker_cinit Z mem seed min_exp max_exp mask_bits W = Inr c" and "0 \<le> W"
    and "well_behaved src"
  shows "int (min_size c) = int_shl1 min_exp \<and> int (buf_size c) = int_shl1 max_exp \<and>
    W + int (min_size c) + 1 \<le> int (buf_size c) \<and>
    (\<exists>cs s'. chunker_drain Z (chunkify c src) [] = Some (cs, None, s') \<and>
      (\<forall>ch \<in> set cs. csize ch \<le> buf_size c) \<and>
      (\<forall>ch \<in> set (butlast cs). min_size c \<le> csize ch))"
proof -
  note cf = Chunker_cinit_fields [OF assms(1)]
  define ds where "ds = cut_stream (table c) (chunk_mask c) (window_size c) (min_size c)
    (buf_size c) (stream_of src)"
  from chunker_drain_total [OF assms] obtain s' where
    d: "chunker_drain Z (chunkify c src) [] = Some (map (classify Z) ds, None, s')"
    by (auto simp add: ds_def)
  note ci = chunkify_inv(3,4) [OF assms(1,2)]
  from cut_stream_props [OF ci, of "table c" "chunk_mask c" "stream_of src"]
  have 1: "\<forall>d \<in> set ds. length d \<le> buf_size c"
    and 2: "\<forall>d \<in> set (butlast ds). min_size c \<le> length d"
    by (simp_all add: ds_def)
  have "\<forall>ch \<in> set (map (classify Z) ds). csize ch \<le> buf_size c"
    using 1 by (simp add: csize_classify)
  moreover have "\<forall>ch \<in> set (butlast (map (classify Z) ds)). min_size c \<le> csize ch"
    using 2 by (simp add: map_butlast [symmetric] csize_classify)
  ultimately show ?thesis using d cf(1,2,5) by blast
qed

theorem chunk_sizes_between_min_and_max_witness:
  "\<exists>c. Chunker_cinit 16 [] 1 1 4 1 2 = Inr c \<and> (0::int) \<le> 2 \<and>
     well_behaved [Bytes [1, 2, 3, 4, 5, 6, 7], Bytes [8, 9, 10, 11, 12, 13, 14],
                   Bytes [15, 16, 17, 18, 19, 20]] \<and>
     min_size c = 2 \<and> buf_size c = 16 \<and>
     (\<exists>cs s'. chunker_drain 16 (chunkify c
          [Bytes [1, 2, 3, 4, 5, 6, 7], Bytes [8, 9, 10, 11, 12, 13, 14],
           Bytes [15, 16, 17, 18, 19, 20]]) [] = Some (cs, None, s') \<and>
        map csize cs = [2, 2, 3, 4, 2, 2, 2, 3] \<and>
        list_all (\<lambda>ch. csize ch \<le> 16) cs \<and>
        list_all (\<lambda>ch. 2 \<le> csize ch) (butlast cs))"
proof -
  obtain c where c: "Chunker_cinit 16 [] 1 1 4 1 2 = Inr c"
    using Chunker_cinit_succeeds [of 1 1 2 1 4 16 "[]"] by (auto simp add: fits_int_def)
  have b: "well_behaved [Bytes [1, 2, 3, 4, 5, 6, 7], Bytes [8, 9, 10, 11, 12, 13, 14],
                   Bytes [15, 16, 17, 18, 19, 20]]"
    by simp
  have z: "(0::int) \<le> 2" by simp
  note ex = Chunker_cinit_example [OF c z]
  from chunk_sizes_between_min_and_max [OF c z b] ex(3,4)
  obtain cs s' where d: "chunker_drain 16 (chunkify c
          [Bytes [1, 2, 3, 4, 5, 6, 7], Bytes [8, 9, 10, 11, 12, 13, 14],
           Bytes [15, 16, 17, 18, 19, 20]]) [] = Some (cs, None, s')"
    and le: "list_all (\<lambda>ch. csize ch \<le> 16) cs"
    and ge: "list_all (\<lambda>ch. 2 \<le> csize ch) (butlast cs)"
    unfolding list_all_iff by auto
  from chunker_drain_total [OF c z b] d ex
  have "cs = map (classify 16) (cut_stream (buzhash_init_table 1) 1 2 2 16
      [1, 2, 3, 4, 5, 6, 7, 8, 9, 10, 11, 12, 13, 14, 15, 16, 17, 18, 19, 20])"
    by simp
  then have "map csize cs = [2, 2, 3, 4, 2, 2, 2, 3]"
    by (simp only: map_map comp_def csize_classify cut_stream_example_window_2)
  with d le ge have "\<exists>cs s'. chunker_drain 16 (chunkify c
          [Bytes [1, 2, 3, 4, 5, 6, 7], Bytes [8, 9, 10, 11, 12, 13, 14],
           Bytes [15, 16, 17, 18, 19, 20]]) [] = Some (cs, None, s') \<and>
        map csize cs = [2, 2, 3, 4, 2, 2, 2, 3] \<and>
        list_all (\<lambda>ch. csize ch \<le> 16) cs \<and>
        list_all (\<lambda>ch. 2 \<le> csize ch) (butlast cs)"
    by (intro exI [of _ cs] exI [of _ s'] conjI)
  with c b z ex(3,4) show ?thesis by (intro exI [of _ c] conjI)
qed

section \<open>sparsemap restores the file position\<close>

lemma seek_to_cases:
  "seek_to t f = (r, f') \<Longrightarrow>
     seekable f' = seekable f \<and> cells f' = cells f \<and> seek_hole_errno f' = seek_hole_errno f \<and>
     (case r of Inl e \<Rightarrow> f' = f | Inr p \<Rightarrow> fpos f' = p \<and> int p = t)"
  by (auto simp add: seek_to_def split: if_splits)

lemma dseek_cases:
  assumes "dseek a wh f = (r, f')"
  shows "seekable f' = seekable f \<and> cells f' = cells f \<and> seek_hole_errno f' = seek_hole_errno f \<and>
     (case r of Inl e \<Rightarrow> f' = f | Inr p \<Rightarrow> fpos f' = p)"
proof (cases "seekable f")
  case False
  with assms show ?thesis by (auto simp add: dseek_def)
next
  case True
  with assms show ?thesis
    by (cases wh)
      (auto simp add: dseek_def split: option.splits if_splits sum.splits dest!: seek_to_cases)
qed

lemma dseek_SEEK_SET:
  "seekable f \<Longrightarrow> dseek (int n) SEEK_SET f = (Inr n, f\<lparr>fpos := n\<rparr>)"
  by (simp add: dseek_def seek_to_def)

lemma dseek_unseekable: "\<not> seekable f \<Longrightarrow> dseek a wh f = (Inl (OSError ESPIPE), f)"
  by (simp add: dseek_def)

lemma sparsemap_finally_restores:
  "seekable f \<Longrightarrow> sparsemap_finally cur f r = (r, SM_Finished, f\<lparr>fpos := cur\<rparr>)"
  by (simp add: sparsemap_finally_def dseek_SEEK_SET)

lemma sparsemap_loop_restores_aux:
  "sparsemap_loop start wh cur file_len f = Some y \<Longrightarrow>
   seekable f \<longrightarrow>
     (case y of (r, g', f') \<Rightarrow> seekable f' \<and>
        (case r of Yield x \<Rightarrow> recorded_curr g' = Some cur
         | _ \<Rightarrow> fpos f' = cur \<and> g' = SM_Finished))"
proof (induction rule: sparsemap_loop.raw_induct [rotated 1, consumes 1, case_names step])
  case (step loop start wh cur file_len f y)
  show ?case
  proof
    assume sk: "seekable f"
    obtain res f1 where ds: "dseek (int start) wh f = (res, f1)" by (cases "dseek (int start) wh f")
    from dseek_cases [OF ds] sk have s1: "seekable f1" by simp
    show "case y of (r, g', f') \<Rightarrow> seekable f' \<and>
        (case r of Yield x \<Rightarrow> recorded_curr g' = Some cur
         | _ \<Rightarrow> fpos f' = cur \<and> g' = SM_Finished)"
    proof (cases res)
      case (Inl err)
      with step(2) ds s1 show ?thesis
        by (auto simp add: Let_def sparsemap_finally_restores recorded_curr_def split: if_splits)
    next
      case (Inr e)
      show ?thesis
      proof (cases "e > start")
        case True
        with step(2) ds Inr s1 show ?thesis
          by (auto simp add: Let_def recorded_curr_def)
      next
        case False
        with step(2) ds Inr have
          "loop e (if wh = SEEK_HOLE then SEEK_DATA else SEEK_HOLE) cur file_len f1 = Some y"
          by (simp add: Let_def)
        from step(1) [OF this] s1 show ?thesis by simp
      qed
    qed
  qed
qed

lemma sparsemap_loop_restores:
  assumes "sparsemap_loop start wh cur file_len f = Some (r, g', f')" and "seekable f"
  shows "seekable f' \<and>
    (case r of Yield x \<Rightarrow> recorded_curr g' = Some cur | _ \<Rightarrow> fpos f' = cur \<and> g' = SM_Finished)"
  using sparsemap_loop_restores_aux [OF assms(1)] assms(2) by simp

lemma dpos_curr_end_cases:
  assumes "dpos_curr_end f = (r, f1)"
  shows "(\<not> seekable f \<longrightarrow> f1 = f \<and> (\<exists>e. r = Inl e)) \<and>
    (seekable f \<longrightarrow> r = Inr (fpos f, length (cells f)) \<and> f1 = f)"
proof (cases "seekable f")
  case False
  with assms show ?thesis by (auto simp add: dpos_curr_end_def dseek_unseekable)
next
  case True
  with assms show ?thesis
    by (auto simp add: dpos_curr_end_def dseek_def seek_to_def)
qed

lemma sparsemap_close_restores:
  assumes "seekable f" and "recorded_curr g = Some cur"
  shows "sparsemap_close g f = (None, SM_Finished, f\<lparr>fpos := cur\<rparr>)"
  using assms
  by (cases g) (simp_all add: sparsemap_close_def recorded_curr_def dseek_SEEK_SET)

lemma sparsemap_first_next:
  assumes "sparsemap_next SM_NotStarted f = Some (r, g', f')"
  shows "case r of Yield x \<Rightarrow> recorded_curr g' = Some (fpos f) \<and> seekable f'
         | _ \<Rightarrow> fpos f' = fpos f"
proof (cases "seekable f")
  case False
  obtain res f1 where d: "dpos_curr_end f = (res, f1)" by (cases "dpos_curr_end f")
  from dpos_curr_end_cases [OF d] False obtain e where "res = Inl e" "f1 = f" by auto
  with assms d show ?thesis by (auto simp add: sparsemap_next_def)
next
  case True
  obtain res f1 where d: "dpos_curr_end f = (res, f1)" by (cases "dpos_curr_end f")
  from dpos_curr_end_cases [OF d] True have "res = Inr (fpos f, length (cells f))" "f1 = f" by auto
  with assms d have "sparsemap_loop (fpos f) SEEK_HOLE (fpos f) (length (cells f)) f = Some (r, g', f')"
    by (simp add: sparsemap_next_def)
  from sparsemap_loop_restores [OF this True] show ?thesis
    by (cases r) auto
qed

lemma sparsemap_later_next:
  assumes "seekable f" and "recorded_curr g = Some cur"
    and "sparsemap_next g f = Some (r, g', f')"
  shows "case r of Yield x \<Rightarrow> recorded_curr g' = Some cur \<and> seekable f' | _ \<Rightarrow> fpos f' = cur"
proof (cases g)
  case (SM_Yielded e is_data c file_len)
  with assms(2) have c: "c = cur" by (simp add: recorded_curr_def)
  from assms(3) SM_Yielded c
  have "sparsemap_loop e (if is_data then SEEK_DATA else SEEK_HOLE) cur file_len f = Some (r, g', f')"
    by (simp add: sparsemap_next_def)
  from sparsemap_loop_restores [OF this assms(1)] show ?thesis by (cases r) auto
next
  case (SM_LastYielded c)
  with assms(2) have c: "c = cur" by (simp add: recorded_curr_def)
  with assms(1,3) SM_LastYielded show ?thesis
    by (auto simp add: sparsemap_next_def sparsemap_finally_restores)
qed (use assms(2) in \<open>simp_all add: recorded_curr_def\<close>)

text \<open>
  C7. The generator \<^verbatim>\<open>sparsemap\<close> puts the file pointer back to where it was when the
  enumeration started, on every way out. First statement: the first \<^verbatim>\<open>next()\<close> either yields,
  and then the generator has recorded the position of that moment, or it ends (normally or
  with an exception) with the file pointer where it was. Second statement: every later
  \<^verbatim>\<open>next()\<close>, wherever the consumer has moved the file pointer in between, either yields
  and keeps the recorded position, or ends, normally or with an exception, with the file
  pointer at the recorded position. Third statement: closing the suspended generator, which is
  what abandoning it does, puts the file pointer at the recorded position and raises nothing.
\<close>

theorem sparsemap_restores_position:
  "(sparsemap_next SM_NotStarted f = Some (r, g', f') \<longrightarrow>
      (case r of Yield x \<Rightarrow> recorded_curr g' = Some (fpos f) \<and> seekable f'
       | _ \<Rightarrow> fpos f' = fpos f)) \<and>
   (seekable f \<and> recorded_curr g = Some cur \<and> sparsemap_next g f = Some (r, g', f') \<longrightarrow>
      (case r of Yield x \<Rightarrow> recorded_curr g' = Some cur \<and> seekable f'
       | _ \<Rightarrow> fpos f' = cur)) \<and>
   (seekable f \<and> recorded_curr g = Some cur \<and> sparsemap_close g f = (e, g', f') \<longrightarrow>
      e = None \<and> fpos f' = cur)"
  using sparsemap_first_next [of f r g' f'] sparsemap_later_next [of f g cur r g' f']
    sparsemap_close_restores [of f g cur]
  by auto

theorem sparsemap_restores_position_witness:
  "sparsemap_next SM_NotStarted
     \<lparr>cells = [Some 1, Some 2, None, None, Some 3], fpos = 0, seekable = True,
      seek_hole_errno = None\<rparr>
     = Some (Yield (0, 2, True), SM_Yielded 2 True 0 5,
         \<lparr>cells = [Some 1, Some 2, None, None, Some 3], fpos = 2, seekable = True,
          seek_hole_errno = None\<rparr>) \<and>
   recorded_curr (SM_Yielded 2 True 0 5) = Some 0 \<and>
   sparsemap_next (SM_Yielded 5 True 0 5)
     \<lparr>cells = [Some 1, Some 2, None, None, Some 3], fpos = 5, seekable = True,
      seek_hole_errno = None\<rparr>
     = Some (StopIteration, SM_Finished,
         \<lparr>cells = [Some 1, Some 2, None, None, Some 3], fpos = 0, seekable = True,
          seek_hole_errno = None\<rparr>) \<and>
   sparsemap_close (SM_Yielded 2 True 0 5)
     \<lparr>cells = [Some 1, Some 2, None, None, Some 3], fpos = 4, seekable = True,
      seek_hole_errno = None\<rparr>
     = (None, SM_Finished,
         \<lparr>cells = [Some 1, Some 2, None, None, Some 3], fpos = 0, seekable = True,
          seek_hole_errno = None\<rparr>)"
proof -
  let ?F = "\<lambda>p. \<lparr>cells = [Some 1, Some 2, None, None, Some (3::u8)], fpos = p, seekable = True,
      seek_hole_errno = None\<rparr>"
  have first: "sparsemap_next SM_NotStarted (?F 0)
      = Some (Yield (0, 2, True), SM_Yielded 2 True 0 5, ?F 2)"
    by (simp add: sparsemap_next_def dpos_curr_end_def dseek_def seek_to_def)
      (subst sparsemap_loop.simps, simp add: dseek_def seek_to_def)
  have last: "sparsemap_next (SM_Yielded 5 True 0 5) (?F 5) = Some (StopIteration, SM_Finished, ?F 0)"
    by (simp add: sparsemap_next_def)
      (subst sparsemap_loop.simps, simp add: dseek_def seek_to_def sparsemap_finally_def)
  have close: "sparsemap_close (SM_Yielded 2 True 0 5) (?F 4) = (None, SM_Finished, ?F 0)"
    by (simp add: sparsemap_close_def dseek_def seek_to_def)
  have rc: "recorded_curr (SM_Yielded 2 True 0 5) = Some 0" by (simp add: recorded_curr_def)
  from sparsemap_restores_position [where f = "?F 0" and r = "Yield (0, 2, True)"
      and g' = "SM_Yielded 2 True 0 5" and f' = "?F 2" and g = "SM_Yielded 2 True 0 5" and cur = 0]
    first last close rc
  show ?thesis by simp
qed

section \<open>Sizes of the chunks of the fixed and the failing chunker\<close>

lemma classify_cases:
  "csize (classify Z d) = length d"
  "length d \<le> Z \<Longrightarrow> set d \<subseteq> {0} \<Longrightarrow> classify Z d = Chunk None (length d) CH_ALLOC"
  "\<not> set d \<subseteq> {0} \<Longrightarrow> classify Z d = Chunk (Some d) (length d) CH_DATA"
  by (simp_all add: classify_def startswith_zeros Chunk_def)

lemma failing_loop_sizes_aux:
  "failing_loop wanted c src = Some y \<Longrightarrow>
     (case y of (Yield ch, c', src', g') \<Rightarrow> 0 < csize ch | _ \<Rightarrow> True)"
proof (induction rule: failing_loop.raw_induct [rotated 1, consumes 1, case_names step])
  case (step loop wanted c src y)
  obtain res src' where rd: "src_read wanted src = (res, src')" by (cases "src_read wanted src")
  show ?case
  proof (cases res)
    case (Inl e)
    with step(2) rd show ?thesis by auto
  next
    case (Inr bytes)
    with step(2) rd
    consider (rec) "loop wanted c src' = Some y"
      | (fin) "case y of (Yield ch, c', src', g') \<Rightarrow> 0 < csize ch | _ \<Rightarrow> True"
      by (auto simp add: Let_def Chunk_def split: if_splits)
    then show ?thesis
    proof cases
      case rec
      from step(1) [OF rec] show ?thesis .
    next
      case fin
      then show ?thesis .
    qed
  qed
qed

lemma failing_next_sizes:
  assumes "failing_next c src g = Some (Yield ch, c', src', g')"
  shows "0 < csize ch"
proof -
  from assms obtain wanted where "failing_loop wanted c src = Some (Yield ch, c', src', g')"
    by (cases g) (auto simp add: failing_next_def split: if_splits)
  from failing_loop_sizes_aux [OF this] show ?thesis by simp
qed

(*CLAIMS*)

end
